theory Spec2Isabelle
  imports Main "HOL-Library.Word" "HOL-Library.Signed_Division"
begin

unbundle bit_operations_syntax

section \<open>Machine integers and time values\<close>

text \<open>
  The generator of \<^verbatim>\<open>snowflake.go\<close> computes on Go's fixed-width integers:
  \<^verbatim>\<open>int64\<close> (timestamps and identifiers), \<^verbatim>\<open>int16\<close> (the sequence) and
  \<^verbatim>\<open>uint8\<close> (the two identity fields). They are words here: \<open>+\<close> and \<open>-\<close> wrap,
  \<open>push_bit\<close> is Go's \<^verbatim>\<open><<\<close>, \<open>OR\<close> and \<open>AND\<close> are \<^verbatim>\<open>|\<close> and \<^verbatim>\<open>&\<close>,
  \<open>ucast\<close> is the conversion \<^verbatim>\<open>int64(x)\<close> of an unsigned value, \<open>scast\<close> that of a
  signed one, and \<open><s\<close>, \<open>\<le>s\<close> compare signed values.
\<close>

type_synonym int64 = "64 word"
type_synonym int16 = "16 word"
type_synonym uint8 = "8 word"

text \<open>
  Go's \<^verbatim>\<open>/\<close> on signed integers truncates towards zero; the quotient is computed on
  the signed values and stored back in 64 bits.
\<close>

definition div64 :: "int64 \<Rightarrow> int64 \<Rightarrow> int64" where
  "div64 a b = word_of_int (sint a sdiv sint b)"

text \<open>
  A \<^verbatim>\<open>time.Time\<close> is an instant together with a location. The instant is kept as the
  value \<^verbatim>\<open>UnixNano()\<close> reports for it (nanoseconds since 1970-01-01T00:00:00Z in an
  \<^verbatim>\<open>int64\<close>; Go leaves \<^verbatim>\<open>UnixNano\<close> undefined for instants outside that range), the
  location as its offset in seconds east of UTC.
\<close>

record time =
  nsec :: int64
  zone :: int

definition UnixNano :: "time \<Rightarrow> int64" where
  "UnixNano t = nsec t"

definition UTC :: "time \<Rightarrow> time" where
  "UTC t = t\<lparr>zone := 0\<rparr>"

text \<open>
  The system clock is the environment of the program: \<open>clk n\<close> is what the \<open>n\<close>-th call
  of \<^verbatim>\<open>time.Now()\<close> returns, and every function that reads the clock takes the number
  of readings made so far and returns it advanced.
\<close>

type_synonym clock = "nat \<Rightarrow> time"

section \<open>The generator\<close>

definition sequenceMask :: int16 where "sequenceMask = 4095"
definition workerMask :: uint8 where "workerMask = 31"
definition dataCenterMask :: uint8 where "dataCenterMask = 31"
definition workerLeftShift :: nat where "workerLeftShift = 12"
definition dataCenterLeftShift :: nat where "dataCenterLeftShift = 17"
definition timestampLeftShift :: nat where "timestampLeftShift = 22"

record SnowFlake =
  sequence :: int16
  dataCenterID :: uint8
  workerID :: uint8
  lastTimestamp :: int64
  startTime :: time

text \<open>\<^verbatim>\<open>genMillisecond\<close>: one clock reading, in milliseconds.\<close>

definition genMillisecond :: "clock \<Rightarrow> nat \<Rightarrow> int64 \<times> nat" where
  "genMillisecond clk n = (div64 (UnixNano (UTC (clk n))) 1000000, Suc n)"

text \<open>
  The loop \<^verbatim>\<open>for millisecond <= s.lastTimestamp { millisecond = genMillisecond() }\<close>.
  It polls the clock and may run forever; \<open>None\<close> is the call that never leaves it.
\<close>

partial_function (option) busyWait :: "clock \<Rightarrow> int64 \<Rightarrow> int64 \<Rightarrow> nat \<Rightarrow> (int64 \<times> nat) option" where
  "busyWait clk lastTs millisecond n =
     (if millisecond \<le>s lastTs
      then (case genMillisecond clk n of (millisecond', n') \<Rightarrow> busyWait clk lastTs millisecond' n')
      else Some (millisecond, n))"

declare busyWait.simps [code]

datatype 'a outcome = Panic string | Return 'a

text \<open>
  Lines 99 to 104 of \<^verbatim>\<open>NextID\<close>: the identifier is assembled from the elapsed
  milliseconds, the two identity fields and the sequence captured under the lock.
\<close>

definition makeID :: "SnowFlake \<Rightarrow> int64 \<Rightarrow> int16 \<Rightarrow> int64" where
  "makeID s millisecond sequence' =
     (let elaspedMillisecond = millisecond - div64 (UnixNano (startTime s)) 1000000
      in push_bit timestampLeftShift elaspedMillisecond OR
         push_bit dataCenterLeftShift (ucast (dataCenterID s)) OR
         push_bit workerLeftShift (ucast (workerID s)) OR
         scast sequence')"

text \<open>Lines 94 to 104: the timestamp is stored, the sequence captured, the identifier returned.\<close>

definition finish :: "SnowFlake \<Rightarrow> int64 \<Rightarrow> nat \<Rightarrow> (int64 outcome \<times> SnowFlake \<times> nat) option" where
  "finish s millisecond n =
     (let s' = s\<lparr>lastTimestamp := millisecond\<rparr>;
          sequence' = sequence s'
      in Some (Return (makeID s' millisecond sequence'), s', n))"

text \<open>
  \<^verbatim>\<open>NextID\<close>, called by one goroutine at a time. The result is \<open>None\<close> when the call
  never returns, otherwise the outcome (a panic, or the identifier), the generator after
  the call and the number of clock readings made so far.
\<close>

definition NextID :: "clock \<Rightarrow> SnowFlake \<Rightarrow> nat \<Rightarrow> (int64 outcome \<times> SnowFlake \<times> nat) option" where
  "NextID clk s n =
     (let now = UTC (clk n);
          millisecond = div64 (UnixNano now) 1000000;
          n1 = Suc n
      in if millisecond <s lastTimestamp s
         then Some (Panic ''Clock moved backwards, Refusing to generate id'', s, n1)
         else if millisecond = lastTimestamp s
         then (let s1 = s\<lparr>sequence := (sequence s + 1) AND sequenceMask\<rparr>
               in if sequence s1 = 0
                  then (case busyWait clk (lastTimestamp s1) millisecond n1 of
                          None \<Rightarrow> None
                        | Some (millisecond', n2) \<Rightarrow> finish s1 millisecond' n2)
                  else finish s1 millisecond n1)
         else finish (s\<lparr>sequence := 0\<rparr>) millisecond n1)"

section \<open>Construction\<close>

text \<open>
  \<^verbatim>\<open>machineID\<close> reads the host's interface addresses through Go's \<^verbatim>\<open>net\<close> package.
  An address is a \<^verbatim>\<open>*net.IPNet\<close> (an IP, a byte slice, with its network mask) or some
  other implementation of \<^verbatim>\<open>net.Addr\<close>; the lookup gives the list or an error.
  \<^verbatim>\<open>To4\<close> and \<^verbatim>\<open>IsLoopback\<close> are the library's: a 4-byte IP is IPv4, a 16-byte IP
  with the prefix \<^verbatim>\<open>::ffff:\<close> is the IPv4 address in its last four bytes, anything else
  has no IPv4 form; an IPv4 address is loopback when its first byte is 127, any other
  address when it is \<^verbatim>\<open>::1\<close>.
\<close>

datatype addr = IPNet (IP: "uint8 list") (Mask: "uint8 list") | OtherAddr string

definition To4 :: "uint8 list \<Rightarrow> uint8 list option" where
  "To4 ip =
     (if length ip = 4 then Some ip
      else if length ip = 16 \<and> take 10 ip = replicate 10 0 \<and> ip ! 10 = 255 \<and> ip ! 11 = 255
      then Some (drop 12 ip)
      else None)"

definition IPv6loopback :: "uint8 list" where
  "IPv6loopback = replicate 15 0 @ [1]"

definition IsLoopback :: "uint8 list \<Rightarrow> bool" where
  "IsLoopback ip = (case To4 ip of Some ip4 \<Rightarrow> ip4 ! 0 = 127 | None \<Rightarrow> ip = IPv6loopback)"

text \<open>The loop of \<^verbatim>\<open>machineID\<close> over the addresses.\<close>

fun scanAddrs :: "addr list \<Rightarrow> uint8 \<times> uint8" where
  "scanAddrs [] = (0, 0)"
| "scanAddrs (a # as) =
     (case a of
        OtherAddr _ \<Rightarrow> scanAddrs as
      | IPNet ip _ \<Rightarrow>
          if IsLoopback ip then scanAddrs as
          else (case To4 ip of
                  Some ip4 \<Rightarrow> (ip4 ! 2, ip4 ! 3)
                | None \<Rightarrow> scanAddrs as))"

text \<open>
  \<^verbatim>\<open>machineID\<close>; its argument is what \<^verbatim>\<open>net.InterfaceAddrs()\<close> returns, \<open>Inl\<close> being the
  error.
\<close>

definition machineID :: "string + addr list \<Rightarrow> uint8 \<times> uint8" where
  "machineID InterfaceAddrs = (case InterfaceAddrs of Inl err \<Rightarrow> (0, 0) | Inr as \<Rightarrow> scanAddrs as)"

text \<open>
  \<^verbatim>\<open>NewWith\<close>. The indexing is guarded by the length tests, so no call panics and the
  function has no error result. A new generator has the zero values of Go for the fields
  the literal leaves out.
\<close>

definition NewWith :: "time \<Rightarrow> uint8 list \<Rightarrow> string + addr list \<Rightarrow> SnowFlake" where
  "NewWith startTime' ids InterfaceAddrs =
     (let idLen = length ids;
          (dataCenterID', workerID') =
             (if idLen \<ge> 2 then (ids ! 0, ids ! 1)
              else if idLen = 1 then (ids ! 0, ids ! 0)
              else machineID InterfaceAddrs)
      in \<lparr>sequence = 0,
          dataCenterID = dataCenterID' AND dataCenterMask,
          workerID = workerID' AND workerMask,
          lastTimestamp = 0,
          startTime = UTC startTime'\<rparr>)"

text \<open>
  \<^verbatim>\<open>New\<close> takes the calendar date of \<^verbatim>\<open>time.Now()\<close> and builds midnight of that date
  in UTC. The calendar belongs to Go's \<^verbatim>\<open>time\<close> package: a time's year, month and day
  are those of the civil date, in the time's own location, of the day it falls in, and
  \<^verbatim>\<open>time.Date\<close> is the instant of a civil date and a time of day in a location. The
  conversions between a day number (days since 1970-01-01) and a civil date of the
  proleptic Gregorian calendar are the usual ones, with March as the first month of the
  computational year.
\<close>

definition civilFromDays :: "int \<Rightarrow> int \<times> int \<times> int" where
  "civilFromDays z' =
     (let z = z' + 719468;
          era = z div 146097;
          doe = z - era * 146097;
          yoe = (doe - doe div 1460 + doe div 36524 - doe div 146096) div 365;
          doy = doe - (365 * yoe + yoe div 4 - yoe div 100);
          mp = (5 * doy + 2) div 153;
          d = doy - (153 * mp + 2) div 5 + 1;
          m = (if mp < 10 then mp + 3 else mp - 9);
          y = yoe + era * 400 + (if m \<le> 2 then 1 else 0)
      in (y, m, d))"

definition daysFromCivil :: "int \<Rightarrow> int \<Rightarrow> int \<Rightarrow> int" where
  "daysFromCivil y' m d =
     (let y = (if m \<le> 2 then y' - 1 else y');
          era = y div 400;
          yoe = y - era * 400;
          doy = (153 * (if m > 2 then m - 3 else m + 9) + 2) div 5 + d - 1;
          doe = yoe * 365 + yoe div 4 - yoe div 100 + doy
      in era * 146097 + doe - 719468)"

text \<open>The day a time falls in, in its own location.\<close>

definition localDay :: "time \<Rightarrow> int" where
  "localDay t = (sint (nsec t) div 1000000000 + zone t) div 86400"

definition Year :: "time \<Rightarrow> int" where
  "Year t = fst (civilFromDays (localDay t))"

definition Month :: "time \<Rightarrow> int" where
  "Month t = fst (snd (civilFromDays (localDay t)))"

definition Day :: "time \<Rightarrow> int" where
  "Day t = snd (snd (civilFromDays (localDay t)))"

definition Date :: "int \<Rightarrow> int \<Rightarrow> int \<Rightarrow> int \<Rightarrow> int \<Rightarrow> int \<Rightarrow> int \<Rightarrow> int \<Rightarrow> time" where
  "Date year month day hour minute sec nanos loc =
     \<lparr>nsec = word_of_int
         ((daysFromCivil year month day * 86400 + hour * 3600 + minute * 60 + sec - loc)
            * 1000000000 + nanos),
      zone = loc\<rparr>"

text \<open>
  \<^verbatim>\<open>New\<close>; \<open>now\<close> is what \<^verbatim>\<open>time.Now()\<close> returns, a time in the host's local zone.
  The location \<^verbatim>\<open>time.UTC\<close> is the offset 0.
\<close>

definition New :: "time \<Rightarrow> string + addr list \<Rightarrow> SnowFlake" where
  "New now InterfaceAddrs =
     (let startTime' = Date (Year now) (Month now) (Day now) 0 0 0 0 0;
          (dataCenterID', workerID') = machineID InterfaceAddrs
      in NewWith startTime' [dataCenterID', workerID'] InterfaceAddrs)"

section \<open>Callers\<close>

text \<open>
  A sequential series of \<open>k\<close> calls on one generator, with the identifiers it returns in
  order. A call that panics returns no identifier and leaves the generator to the next
  call (the caller has recovered); a call that never returns ends the series.
\<close>

fun NextIDs :: "clock \<Rightarrow> nat \<Rightarrow> SnowFlake \<Rightarrow> nat \<Rightarrow> int64 list" where
  "NextIDs clk 0 s n = []"
| "NextIDs clk (Suc k) s n =
     (case NextID clk s n of
        None \<Rightarrow> []
      | Some (Panic _, s', n') \<Rightarrow> NextIDs clk k s' n'
      | Some (Return r, s', n') \<Rightarrow> r # NextIDs clk k s' n')"

text \<open>The generator and the clock after \<open>k\<close> such calls, if they all end.\<close>

fun afterCalls :: "clock \<Rightarrow> nat \<Rightarrow> SnowFlake \<Rightarrow> nat \<Rightarrow> (SnowFlake \<times> nat) option" where
  "afterCalls clk 0 s n = Some (s, n)"
| "afterCalls clk (Suc k) s n =
     (case NextID clk s n of
        None \<Rightarrow> None
      | Some (_, s', n') \<Rightarrow> afterCalls clk k s' n')"

text \<open>
  Concurrent callers. Each goroutine runs \<^verbatim>\<open>NextID\<close> on the shared generator, one
  statement at a time, and a scheduler picks which goroutine moves next. A call is at one
  of the following points, holding its local variables \<^verbatim>\<open>millisecond\<close> and
  \<^verbatim>\<open>sequence\<close>:
  \<^item> \<open>AtNow\<close>: before line 73, about to read the clock;
  \<^item> \<open>AtCompare\<close>: at the test of line 75;
  \<^item> \<open>AtLock\<close>: at \<^verbatim>\<open>s.mutex.Lock()\<close>, line 79, which waits while the mutex is held;
  \<^item> \<open>AtSequence\<close>: at the test of line 82, the mutex held;
  \<^item> \<open>AtWait\<close>: in the loop of line 86;
  \<^item> \<open>AtStore\<close>: at lines 94 and 95;
  \<^item> \<open>AtUnlock\<close>: at line 97;
  \<^item> \<open>AtResult\<close>: at lines 99 to 104;
  \<^item> \<open>Finished\<close>: returned, or panicked.
\<close>

datatype call =
    AtNow
  | AtCompare int64
  | AtLock int64
  | AtSequence int64
  | AtWait int64
  | AtStore int64
  | AtUnlock int64 int16
  | AtResult int64 int16
  | Finished "int64 outcome"

record config =
  shared :: SnowFlake
  mutex :: "nat option"
  readings :: nat
  calls :: "call list"

definition move :: "config \<Rightarrow> nat \<Rightarrow> call \<Rightarrow> config" where
  "move c t p = c\<lparr>calls := (calls c)[t := p]\<rparr>"

text \<open>One statement of goroutine \<open>t\<close>; \<open>None\<close> when it cannot move.\<close>

definition step :: "clock \<Rightarrow> config \<Rightarrow> nat \<Rightarrow> config option" where
  "step clk c t =
     (if length (calls c) \<le> t then None
      else case calls c ! t of
        AtNow \<Rightarrow>
          Some (move (c\<lparr>readings := Suc (readings c)\<rparr>) t
                  (AtCompare (div64 (UnixNano (UTC (clk (readings c)))) 1000000)))
      | AtCompare millisecond \<Rightarrow>
          Some (move c t
                  (if millisecond <s lastTimestamp (shared c)
                   then Finished (Panic ''Clock moved backwards, Refusing to generate id'')
                   else AtLock millisecond))
      | AtLock millisecond \<Rightarrow>
          (case mutex c of
             Some _ \<Rightarrow> None
           | None \<Rightarrow> Some (move (c\<lparr>mutex := Some t\<rparr>) t (AtSequence millisecond)))
      | AtSequence millisecond \<Rightarrow>
          (if millisecond = lastTimestamp (shared c)
           then (let s1 = (shared c)\<lparr>sequence := (sequence (shared c) + 1) AND sequenceMask\<rparr>
                 in Some (move (c\<lparr>shared := s1\<rparr>) t
                            (if sequence s1 = 0 then AtWait millisecond else AtStore millisecond)))
           else Some (move (c\<lparr>shared := (shared c)\<lparr>sequence := 0\<rparr>\<rparr>) t (AtStore millisecond)))
      | AtWait millisecond \<Rightarrow>
          (if millisecond \<le>s lastTimestamp (shared c)
           then (case genMillisecond clk (readings c) of
                   (millisecond', n') \<Rightarrow> Some (move (c\<lparr>readings := n'\<rparr>) t (AtWait millisecond')))
           else Some (move c t (AtStore millisecond)))
      | AtStore millisecond \<Rightarrow>
          (let s' = (shared c)\<lparr>lastTimestamp := millisecond\<rparr>
           in Some (move (c\<lparr>shared := s'\<rparr>) t (AtUnlock millisecond (sequence s'))))
      | AtUnlock millisecond sequence' \<Rightarrow>
          Some (move (c\<lparr>mutex := None\<rparr>) t (AtResult millisecond sequence'))
      | AtResult millisecond sequence' \<Rightarrow>
          Some (move c t (Finished (Return (makeID (shared c) millisecond sequence'))))
      | Finished _ \<Rightarrow> None)"

text \<open>A schedule names the goroutine that moves at each step.\<close>

fun run :: "clock \<Rightarrow> nat list \<Rightarrow> config \<Rightarrow> config option" where
  "run clk [] c = Some c"
| "run clk (t # ts) c = (case step clk c t of None \<Rightarrow> None | Some c' \<Rightarrow> run clk ts c')"

section \<open>Notions of the specification\<close>

text \<open>The \<open>i\<close>-th clock reading and the generator's epoch, in milliseconds.\<close>

definition msAt :: "clock \<Rightarrow> nat \<Rightarrow> int64" where
  "msAt clk i = fst (genMillisecond clk i)"

definition startMs :: "SnowFlake \<Rightarrow> int64" where
  "startMs s = div64 (UnixNano (startTime s)) 1000000"

text \<open>A clock does not move backward.\<close>

definition nondecreasing :: "clock \<Rightarrow> bool" where
  "nondecreasing clk \<longleftrightarrow> (\<forall>i. UnixNano (clk i) \<le>s UnixNano (clk (Suc i)))"

text \<open>The fields of a generator are within their bit widths.\<close>

definition valid :: "SnowFlake \<Rightarrow> bool" where
  "valid s \<longleftrightarrow>
     dataCenterID s \<le> 31 \<and> workerID s \<le> 31 \<and> 0 \<le>s sequence s \<and> sequence s \<le>s 4095"

text \<open>
  The elapsed milliseconds of a timestamp fit the timestamp field of an identifier, the
  42 bits above bit 22 with the sign bit.
\<close>

definition fits :: "SnowFlake \<Rightarrow> int64 \<Rightarrow> bool" where
  "fits s millisecond \<longleftrightarrow>
     - (2 ^ 41) \<le> sint (millisecond - startMs s) \<and> sint (millisecond - startMs s) < 2 ^ 41"

text \<open>The 22 bits of an identifier below its timestamp field.\<close>

definition lowFields :: "uint8 \<Rightarrow> uint8 \<Rightarrow> int16 \<Rightarrow> int64" where
  "lowFields d w q = push_bit 17 (ucast d) OR push_bit 12 (ucast w) OR scast q"

text \<open>The identifier of the generator's last timestamp and sequence.\<close>

definition lastID :: "SnowFlake \<Rightarrow> int64" where
  "lastID s = makeID s (lastTimestamp s) (sequence s)"

text \<open>
  Generator \<open>a\<close> is earlier than \<open>b\<close>: its timestamp is smaller, or the timestamps are
  equal and its sequence is smaller.
\<close>

definition precedes :: "SnowFlake \<Rightarrow> SnowFlake \<Rightarrow> bool" where
  "precedes a b \<longleftrightarrow>
     lastTimestamp a <s lastTimestamp b \<or>
     lastTimestamp a = lastTimestamp b \<and> sequence a < sequence b"

text \<open>The sequence budget of the millisecond is used up: the next call wraps it to 0.\<close>

definition exhausted :: "clock \<Rightarrow> SnowFlake \<Rightarrow> nat \<Rightarrow> bool" where
  "exhausted clk s n \<longleftrightarrow>
     msAt clk n = lastTimestamp s \<and> (sequence s + 1) AND sequenceMask = 0"

text \<open>
  Node identity resolution as the specification words it: the third and fourth octets of
  the first address that is not loopback and has an IPv4 form, \<open>(0, 0)\<close> otherwise.
\<close>

definition usableIPv4 :: "addr \<Rightarrow> bool" where
  "usableIPv4 a = (case a of IPNet ip _ \<Rightarrow> \<not> IsLoopback ip \<and> To4 ip \<noteq> None | OtherAddr _ \<Rightarrow> False)"

definition resolveIdentity :: "string + addr list \<Rightarrow> uint8 \<times> uint8" where
  "resolveIdentity InterfaceAddrs =
     (case InterfaceAddrs of
        Inl err \<Rightarrow> (0, 0)
      | Inr as \<Rightarrow>
          (case find usableIPv4 as of
             None \<Rightarrow> (0, 0)
           | Some a \<Rightarrow> (case To4 (IP a) of Some ip4 \<Rightarrow> (ip4 ! 2, ip4 ! 3) | None \<Rightarrow> (0, 0))))"

text \<open>Midnight in UTC of the UTC day an instant falls in.\<close>

definition utcMidnight :: "time \<Rightarrow> time" where
  "utcMidnight t =
     \<lparr>nsec = word_of_int (sint (nsec t) div 86400000000000 * 86400000000000), zone = 0\<rparr>"

section \<open>Example inputs\<close>

text \<open>
  The instant \<open>m\<close> milliseconds after 1970-01-01T00:00:00Z, and a clock that gives the
  listed readings (in milliseconds) in turn and then stays at the last one.
\<close>

definition atMs :: "int \<Rightarrow> time" where
  "atMs m = \<lparr>nsec = word_of_int (m * 1000000), zone = 0\<rparr>"

definition clockOf :: "int list \<Rightarrow> clock" where
  "clockOf ms n = atMs (ms ! min n (length ms - 1))"

text \<open>No interface address could be read.\<close>

definition noAddrs :: "string + addr list" where
  "noAddrs = Inl ''no such network interface''"

text \<open>
  A generator with identity \<open>(1, 2)\<close> whose epoch is 1970-01-01T00:00:00Z, new, and after
  it has given the 4096 identifiers of millisecond \<open>m\<close>.
\<close>

definition gen1970 :: SnowFlake where
  "gen1970 = NewWith (atMs 0) [1, 2] noAddrs"

definition usedUp :: "int \<Rightarrow> SnowFlake" where
  "usedUp m = gen1970\<lparr>sequence := 4095, lastTimestamp := word_of_int m\<rparr>"

text \<open>Three goroutines about to call \<^verbatim>\<open>NextID\<close> on that generator, new.\<close>

definition threeCalls :: config where
  "threeCalls = \<lparr>shared = gen1970, mutex = None, readings = 0, calls = [AtNow, AtNow, AtNow]\<rparr>"

text \<open>
  The instant 2024-01-01T19:00:00Z as \<^verbatim>\<open>time.Now()\<close> returns it on a host whose local
  zone is eight hours east of UTC, where it is 03:00 on 2024-01-02.
\<close>

definition nightEast :: time where
  "nightEast = \<lparr>nsec = 1704135600000000000, zone = 28800\<rparr>"

section \<open>Properties of the arithmetic\<close>

text \<open>
  Milliseconds from nanoseconds: the division is monotone and its results are small, so
  that the difference of two of them never wraps.
\<close>

lemma sdiv_ms_eq: "(k::int) sdiv 1000000 = (if 0 \<le> k then k div 1000000 else - ((- k) div 1000000))"
  by (simp add: signed_divide_int_def sgn_if)

lemma sdiv_ms_mono: "(a::int) \<le> b \<Longrightarrow> a sdiv 1000000 \<le> b sdiv 1000000"
  unfolding sdiv_ms_eq
  by (auto intro: zdiv_mono1 simp: pos_imp_zdiv_nonneg_iff  intro: order_trans [of _ 0])

lemma sdiv_ms_bound: "- (2 ^ 63) \<le> (a::int) \<Longrightarrow> a < 2 ^ 63 \<Longrightarrow> - (2 ^ 44) < a sdiv 1000000 \<and> a sdiv 1000000 < 2 ^ 44"
  unfolding sdiv_ms_eq
  by auto

lemma sint_div64_ms: "sint (div64 a 1000000) = sint a sdiv 1000000"
proof -
  have "- (2 ^ 63) \<le> sint a" "sint a < 2 ^ 63"
    using sint_ge [of a] sint_lt [of a] by simp_all
  then have "- (2 ^ 44) < sint a sdiv 1000000 \<and> sint a sdiv 1000000 < 2 ^ 44"
    by (rule sdiv_ms_bound)
  then have "- (2 ^ 63) \<le> sint a sdiv 1000000 \<and> sint a sdiv 1000000 < 2 ^ 63"
    by simp
  then show ?thesis
    by (simp add: div64_def sint_sbintrunc' signed_take_bit_int_eq_self)
qed

lemma div64_ms_mono: "a \<le>s b \<Longrightarrow> div64 a 1000000 \<le>s div64 b 1000000"
  by (simp add: word_sle_eq sint_div64_ms sdiv_ms_mono)

lemma div64_ms_bound: "- (2 ^ 44) < sint (div64 a 1000000) \<and> sint (div64 a 1000000) < 2 ^ 44"
  using sdiv_ms_bound [of "sint a"]  sint_ge [of a] sint_lt [of a] by (simp add: sint_div64_ms)

text \<open>
  The fields of an identifier: where their bits lie, how each is read back, and the
  signed value of the whole.
\<close>

lemma bit_le31: "(x::uint8) \<le> 31 \<Longrightarrow> bit x n \<Longrightarrow> n < 5"
proof -
  assume a: "x \<le> 31" and b: "bit x n"
  have "x < 2 ^ 5" using a by (simp add: word_le_nat_alt word_less_nat_alt)
  then have "x AND mask 5 = x" by (rule less_mask_eq)
  then have "take_bit 5 x = x" by (simp only: take_bit_eq_mask)
  then have "bit (take_bit 5 x) n" using b by simp
  then show "n < 5" by (simp add: bit_take_bit_iff)
qed

lemma bit_le4095: "(x::int16) \<le> 4095 \<Longrightarrow> bit x n \<Longrightarrow> n < 12"
proof -
  assume a: "x \<le> 4095" and b: "bit x n"
  have "x < 2 ^ 12" using a by (simp add: word_le_nat_alt word_less_nat_alt)
  then have "x AND mask 12 = x" by (rule less_mask_eq)
  then have "take_bit 12 x = x" by (simp only: take_bit_eq_mask)
  then have "bit (take_bit 12 x) n" using b by simp
  then show "n < 12" by (simp add: bit_take_bit_iff)
qed

lemma scast_seq: "(q::int16) \<le> 4095 \<Longrightarrow> (scast q :: int64) = ucast q"
  by (rule bit_word_eqI) (auto simp: bit_simps dest: bit_le4095)

lemma and_31_le: "(x::uint8) AND 31 \<le> 31"
  by (rule word_and_le1)

lemma n4095_mask: "(4095::int64) = mask 12"
  by (simp add: mask_eq_exp_minus_1)

lemma n31_mask: "(31::int64) = mask 5"
  by (simp add: mask_eq_exp_minus_1)

lemma lowFields_ucast: "q \<le> 4095 \<Longrightarrow> lowFields d w q = push_bit 17 (ucast d) OR push_bit 12 (ucast w) OR ucast q"
  by (simp add: lowFields_def scast_seq)

lemma field_seq: "d \<le> 31 \<Longrightarrow> w \<le> 31 \<Longrightarrow> q \<le> 4095 \<Longrightarrow>
   (push_bit 22 e OR lowFields d w q) AND 4095 = ucast q"
  unfolding n4095_mask
  apply (rule bit_word_eqI)
  apply (auto simp: lowFields_ucast bit_simps dest: bit_le31 bit_le4095)
  done

lemma field_worker: "d \<le> 31 \<Longrightarrow> w \<le> 31 \<Longrightarrow> q \<le> 4095 \<Longrightarrow>
   signed_drop_bit 12 (push_bit 22 e OR lowFields d w q) AND 31 = ucast w"
  unfolding n31_mask
  apply (rule bit_word_eqI)
  apply (auto simp: lowFields_ucast bit_simps dest: bit_le31 bit_le4095)
  done

lemma field_dc: "d \<le> 31 \<Longrightarrow> w \<le> 31 \<Longrightarrow> q \<le> 4095 \<Longrightarrow>
   signed_drop_bit 17 (push_bit 22 e OR lowFields d w q) AND 31 = ucast d"
  unfolding n31_mask
  apply (rule bit_word_eqI)
  apply (auto simp: lowFields_ucast bit_simps dest: bit_le31 bit_le4095)
  done

lemma field_ts_bits: "d \<le> 31 \<Longrightarrow> w \<le> 31 \<Longrightarrow> q \<le> 4095 \<Longrightarrow>
   drop_bit 22 (push_bit 22 e OR lowFields d w q) = take_bit 42 e"
  apply (rule bit_word_eqI)
  apply (auto simp: lowFields_ucast bit_simps dest: bit_le31 bit_le4095)
  done

lemma lowFields_bits: "d \<le> 31 \<Longrightarrow> w \<le> 31 \<Longrightarrow> q \<le> 4095 \<Longrightarrow> bit (lowFields d w q) n \<Longrightarrow> n < 22"
  by (auto simp: lowFields_ucast bit_simps dest: bit_le31 bit_le4095)

lemma uint_of_int_id: "0 \<le> k \<Longrightarrow> k < 2 ^ 64 \<Longrightarrow> uint (word_of_int k :: int64) = k"
  by (simp add: uint_word_of_int_eq take_bit_int_eq_self)

lemma sint_of_int_id: "- (2 ^ 63) \<le> k \<Longrightarrow> k < 2 ^ 63 \<Longrightarrow> sint (word_of_int k :: int64) = k"
  by (simp add: sint_sbintrunc' signed_take_bit_int_eq_self)

lemma pack_range:
  "0 \<le> (l::int) \<Longrightarrow> l < 2 ^ 22 \<Longrightarrow> - (2 ^ 41) \<le> e \<Longrightarrow> e < 2 ^ 41 \<Longrightarrow>
   - (2 ^ 63) \<le> e * 2 ^ 22 + l \<and> e * 2 ^ 22 + l < 2 ^ 63"
  by simp

lemma unpack_range:
  "- (2 ^ 63) \<le> (x::int) \<Longrightarrow> x < 2 ^ 63 \<Longrightarrow> - (2 ^ 41) \<le> x div 2 ^ 22 \<and> x div 2 ^ 22 < 2 ^ 41"
  by simp arith

lemma uint_lowFields:
  assumes "d \<le> 31" "w \<le> 31" "q \<le> 4095"
  shows "uint (lowFields d w q) = uint d * 2 ^ 17 + uint w * 2 ^ 12 + uint q"
proof -
  have d: "uint d \<le> 31" and w: "uint w \<le> 31" and q: "uint q \<le> 4095"
    using assms by (simp_all add: word_le_def)
  have "lowFields d w q = push_bit 17 (ucast d) + (push_bit 12 (ucast w) + ucast q)"
    unfolding lowFields_ucast [OF assms(3)] using assms
    by (subst disjunctive_add [symmetric], (auto simp: bit_simps dest: bit_le31 bit_le4095)[1])+
       (simp add: add.assoc or.assoc)
  also have "\<dots> = word_of_int (uint d * 2 ^ 17 + uint w * 2 ^ 12 + uint q)"
    by (simp add: push_bit_eq_mult)
  finally have e: "lowFields d w q = word_of_int (uint d * 2 ^ 17 + uint w * 2 ^ 12 + uint q)" .
  show ?thesis
    unfolding e by (rule uint_of_int_id) (use d w q in simp_all)
qed

lemma sint_id:
  assumes "d \<le> 31" "w \<le> 31" "q \<le> 4095" "- (2 ^ 41) \<le> sint e" "sint e < 2 ^ 41"
  shows "sint (push_bit 22 e OR lowFields d w q) = sint e * 2 ^ 22 + uint (lowFields d w q)"
proof -
  have l: "0 \<le> uint (lowFields d w q) \<and> uint (lowFields d w q) < 2 ^ 22"
    using assms(1-3) by (simp add: uint_lowFields word_le_def)
  have "push_bit 22 e OR lowFields d w q = push_bit 22 e + lowFields d w q"
    using assms(1-3) by (subst disjunctive_add) (auto simp: bit_simps dest: lowFields_bits)
  also have "\<dots> = word_of_int (sint e * 2 ^ 22 + uint (lowFields d w q))"
    by (simp add: push_bit_eq_mult)
  finally have e: "push_bit 22 e OR lowFields d w q = word_of_int (sint e * 2 ^ 22 + uint (lowFields d w q))" .
  have "- (2 ^ 63) \<le> sint e * 2 ^ 22 + uint (lowFields d w q) \<and> sint e * 2 ^ 22 + uint (lowFields d w q) < 2 ^ 63"
    using l assms(4,5) by (intro pack_range) simp_all
  then show ?thesis
    unfolding e by (intro sint_of_int_id) simp_all
qed

lemma field_ts:
  assumes "d \<le> 31" "w \<le> 31" "q \<le> 4095" "- (2 ^ 41) \<le> sint e" "sint e < 2 ^ 41"
  shows "signed_drop_bit 22 (push_bit 22 e OR lowFields d w q) = e"
proof -
  have l: "0 \<le> uint (lowFields d w q) \<and> uint (lowFields d w q) < 2 ^ 22"
    using assms(1-3) by (simp add: uint_lowFields word_le_def)
  have "sint (signed_drop_bit 22 (push_bit 22 e OR lowFields d w q)) = (sint e * 2 ^ 22 + uint (lowFields d w q)) div 2 ^ 22"
    by (simp add: sint_signed_drop_bit_eq sint_id [OF assms] drop_bit_eq_div)
  also have "\<dots> = sint e"
    using l by simp
  finally show ?thesis by (rule signed_word_eqI)
qed

lemma field_ts_only_if:
  assumes "d \<le> 31" "w \<le> 31" "q \<le> 4095" "signed_drop_bit 22 (push_bit 22 e OR lowFields d w q) = e"
  shows "- (2 ^ 41) \<le> sint e \<and> sint e < 2 ^ 41"
proof -
  have "sint e = drop_bit 22 (sint (push_bit 22 e OR lowFields d w q))"
    using assms(4) by (simp flip: sint_signed_drop_bit_eq)
  then have "sint e = sint (push_bit 22 e OR lowFields d w q) div 2 ^ 22"
    by (simp add: drop_bit_eq_div)
  moreover have "- (2 ^ 63) \<le> sint (push_bit 22 e OR lowFields d w q)" "sint (push_bit 22 e OR lowFields d w q) < 2 ^ 63"
    using sint_ge [of "push_bit 22 e OR lowFields d w q"] sint_lt [of "push_bit 22 e OR lowFields d w q"] by simp_all
  ultimately show ?thesis using unpack_range [of "sint (push_bit 22 e OR lowFields d w q)"] by simp
qed

section \<open>Properties of the generator\<close>

text \<open>The sequence as a signed and as an unsigned value, and the busy-wait loop.\<close>

lemma stb15_id: "0 \<le> k \<Longrightarrow> k \<le> 4095 \<Longrightarrow> signed_take_bit 15 k = k" for k :: int
  by (intro signed_take_bit_int_eq_self) simp_all

lemma tb16_id: "0 \<le> k \<Longrightarrow> k \<le> 4095 \<Longrightarrow> take_bit 16 k = k" for k :: int
  by (intro take_bit_int_eq_self) simp_all

lemma seq_signed: "(0 \<le>s q \<and> q \<le>s 4095) = (q \<le> 4095)" for q :: int16
proof
  assume a: "0 \<le>s q \<and> q \<le>s 4095"
  then have r: "0 \<le> sint q" "sint q \<le> 4095" by (simp_all add: word_sle_eq)
  have "uint q = uint (word_of_int (sint q) :: int16)" by simp
  also have "\<dots> = take_bit 16 (sint q)" by (simp add: uint_word_of_int_eq del: of_int_sint)
  also have "\<dots> = sint q" using r by (rule tb16_id)
  finally show "q \<le> 4095" using r by (simp add: word_le_def)
next
  assume a: "q \<le> 4095"
  then have u: "uint q \<le> 4095" by (simp add: word_le_def)
  have "sint q = signed_take_bit 15 (uint q)" by (simp add: sint_uint)
  also have "\<dots> = uint q" using u by (intro stb15_id) simp_all
  finally show "0 \<le>s q \<and> q \<le>s 4095" using u by (simp add: word_sle_eq)
qed

lemma makeID_eq:
  "makeID s ms q = push_bit 22 (ms - startMs s) OR lowFields (dataCenterID s) (workerID s) q"
  by (simp add: makeID_def startMs_def lowFields_def timestampLeftShift_def
        dataCenterLeftShift_def workerLeftShift_def or.assoc)

lemma makeID_update [simp]:
  "makeID (s\<lparr>sequence := q'\<rparr>) ms q = makeID s ms q"
  "makeID (s\<lparr>lastTimestamp := m'\<rparr>) ms q = makeID s ms q"
  by (simp_all add: makeID_def)

lemma msAt_eq: "msAt clk n = div64 (UnixNano (UTC (clk n))) 1000000"
  by (simp add: msAt_def genMillisecond_def)

lemma busyWait_exit: "\<not> ms \<le>s lastTs \<Longrightarrow> busyWait clk lastTs ms n = Some (ms, n)"
  by (subst busyWait.simps) simp

lemma busyWait_iter: "ms \<le>s lastTs \<Longrightarrow> busyWait clk lastTs ms n = busyWait clk lastTs (msAt clk n) (Suc n)"
  by (subst busyWait.simps) (simp add: genMillisecond_def msAt_def)

lemma busyWait_finds:
  "\<forall>i<k. msAt clk (n + i) \<le>s lastTs \<Longrightarrow> lastTs <s msAt clk (n + k) \<Longrightarrow> ms \<le>s lastTs \<Longrightarrow>
   busyWait clk lastTs ms n = Some (msAt clk (n + k), Suc (n + k))"
proof (induction k arbitrary: n ms)
  case 0
  have "busyWait clk lastTs ms n = busyWait clk lastTs (msAt clk n) (Suc n)"
    using 0(3) by (rule busyWait_iter)
  also have "\<dots> = Some (msAt clk n, Suc n)"
    using 0(2) by (intro busyWait_exit) (simp add: signed.not_le)
  finally show ?case by simp
next
  case (Suc k)
  have first: "msAt clk n \<le>s lastTs" using Suc.prems(1) by (metis add.right_neutral zero_less_Suc)
  have rest: "\<forall>i<k. msAt clk (Suc n + i) \<le>s lastTs"
    using Suc.prems(1) by (metis Suc_less_eq add_Suc_right add_Suc)
  have "busyWait clk lastTs (msAt clk n) (Suc n) = Some (msAt clk (Suc n + k), Suc (Suc n + k))"
    using rest Suc.prems(2) first by (intro Suc.IH) simp_all
  moreover have "busyWait clk lastTs ms n = busyWait clk lastTs (msAt clk n) (Suc n)"
    using Suc.prems(3) by (rule busyWait_iter)
  ultimately show ?case by simp
qed

lemma busyWait_Some:
  assumes "busyWait clk lastTs ms n = Some r"
  shows "(\<not> ms \<le>s lastTs \<and> r = (ms, n)) \<or>
   (ms \<le>s lastTs \<and> (\<exists>k. (\<forall>i<k. msAt clk (n + i) \<le>s lastTs) \<and> lastTs <s msAt clk (n + k) \<and>
        r = (msAt clk (n + k), Suc (n + k))))"
  using assms
proof (induction rule: busyWait.raw_induct [rotated 1, consumes 1])
  case (1 busyWait' clk lastTs ms n r)
  show ?case
  proof (cases "ms \<le>s lastTs")
    case False
    with 1(2) show ?thesis by simp
  next
    case True
    with 1(2) have call: "busyWait' clk lastTs (msAt clk n) (Suc n) = Some r"
      by (simp add: genMillisecond_def msAt_def)
    have "\<exists>k. (\<forall>i<k. msAt clk (n + i) \<le>s lastTs) \<and> lastTs <s msAt clk (n + k) \<and>
        r = (msAt clk (n + k), Suc (n + k))"
      using 1(1) [OF call]
    proof
      assume a: "\<not> msAt clk n \<le>s lastTs \<and> r = (msAt clk n, Suc n)"
      show ?thesis
        by (rule exI [of _ 0]) (use a in \<open>simp add: signed.not_le\<close>)
    next
      assume "msAt clk n \<le>s lastTs \<and> (\<exists>k. (\<forall>i<k. msAt clk (Suc n + i) \<le>s lastTs) \<and>
        lastTs <s msAt clk (Suc n + k) \<and> r = (msAt clk (Suc n + k), Suc (Suc n + k)))"
      then obtain k where f: "msAt clk n \<le>s lastTs" and k1: "\<forall>i<k. msAt clk (Suc n + i) \<le>s lastTs"
        and k2: "lastTs <s msAt clk (Suc n + k)" and k3: "r = (msAt clk (Suc n + k), Suc (Suc n + k))"
        by (elim conjE exE)
      have "\<forall>i<Suc k. msAt clk (n + i) \<le>s lastTs"
      proof (intro allI impI)
        fix i assume "i < Suc k"
        then show "msAt clk (n + i) \<le>s lastTs" using f k1 by (cases i) simp_all
      qed
      then show ?thesis
        by (intro exI [of _ "Suc k"] conjI) (use k2 k3 in simp_all)
    qed
    with True show ?thesis by simp
  qed
qed

lemma busyWait_never:
  assumes "\<forall>i. msAt clk (n + i) \<le>s lastTs" "ms \<le>s lastTs"
  shows "busyWait clk lastTs ms n = None"
proof (cases "busyWait clk lastTs ms n")
  case None
  then show ?thesis .
next
  case (Some r)
  from busyWait_Some [OF Some] assms(2)
  obtain k where "lastTs <s msAt clk (n + k)" by blast
  moreover have "msAt clk (n + k) \<le>s lastTs" using assms(1) by blast
  ultimately show ?thesis by (simp add: signed.not_le [symmetric])
qed

text \<open>The four ways a call of \<^verbatim>\<open>NextID\<close> can go, and what a call that has ended tells.\<close>

lemma NextID_panic:
  "msAt clk n <s lastTimestamp s \<Longrightarrow>
   NextID clk s n = Some (Panic ''Clock moved backwards, Refusing to generate id'', s, Suc n)"
  by (simp add: NextID_def msAt_eq Let_def)

lemma NextID_later:
  assumes "lastTimestamp s <s msAt clk n"
  shows "NextID clk s n =
     Some (Return (makeID s (msAt clk n) 0), s\<lparr>sequence := 0, lastTimestamp := msAt clk n\<rparr>, Suc n)"
proof -
  have "\<not> msAt clk n <s lastTimestamp s" "msAt clk n \<noteq> lastTimestamp s"
    using assms by (auto simp: signed.less_asym)
  then show ?thesis
    by (simp add: NextID_def msAt_eq Let_def finish_def)
qed

lemma NextID_same:
  assumes "msAt clk n = lastTimestamp s" "(sequence s + 1) AND sequenceMask \<noteq> 0"
  shows "NextID clk s n =
     Some (Return (makeID s (lastTimestamp s) ((sequence s + 1) AND sequenceMask)),
           s\<lparr>sequence := (sequence s + 1) AND sequenceMask\<rparr>, Suc n)"
  using assms by (simp add: NextID_def msAt_eq Let_def finish_def)

lemma NextID_wrap:
  assumes "exhausted clk s n"
  shows "NextID clk s n =
     (case busyWait clk (lastTimestamp s) (lastTimestamp s) (Suc n) of
        None \<Rightarrow> None
      | Some (ms', n2) \<Rightarrow>
          Some (Return (makeID s ms' 0), s\<lparr>sequence := 0, lastTimestamp := ms'\<rparr>, n2))"
  using assms
  by (simp add: exhausted_def NextID_def msAt_eq Let_def finish_def split: option.split)

lemma NextID_cases:
  obtains (backwards) "msAt clk n <s lastTimestamp s"
  | (later) "lastTimestamp s <s msAt clk n"
  | (same) "msAt clk n = lastTimestamp s" "(sequence s + 1) AND sequenceMask \<noteq> 0"
  | (wrap) "exhausted clk s n"
  using signed.less_linear [of "msAt clk n" "lastTimestamp s"]
  by (auto simp: exhausted_def)

lemma and_mask_seq_le: "(q AND sequenceMask) \<le> 4095"
  unfolding sequenceMask_def by (rule word_and_le1)

lemma NextID_Return:
  assumes "NextID clk s n = Some (Return r, s', n')"
  shows "r = makeID s (lastTimestamp s') (sequence s')"
    and "sequence s' \<le> 4095"
    and "dataCenterID s' = dataCenterID s"
    and "workerID s' = workerID s"
    and "startTime s' = startTime s"
    and "\<exists>i. lastTimestamp s' = msAt clk i"
    and "\<not> msAt clk n <s lastTimestamp s"
    and "(lastTimestamp s <s lastTimestamp s' \<and> sequence s' = 0) \<or>
         (lastTimestamp s' = lastTimestamp s \<and> sequence s' = (sequence s + 1) AND sequenceMask \<and>
          sequence s' \<noteq> 0)"
proof -
  have "r = makeID s (lastTimestamp s') (sequence s') \<and> sequence s' \<le> 4095 \<and>
    dataCenterID s' = dataCenterID s \<and> workerID s' = workerID s \<and> startTime s' = startTime s \<and>
    (\<exists>i. lastTimestamp s' = msAt clk i) \<and> \<not> msAt clk n <s lastTimestamp s \<and>
    ((lastTimestamp s <s lastTimestamp s' \<and> sequence s' = 0) \<or>
         (lastTimestamp s' = lastTimestamp s \<and> sequence s' = (sequence s + 1) AND sequenceMask \<and>
          sequence s' \<noteq> 0))"
  proof (cases clk n s rule: NextID_cases)
    case backwards
    with assms show ?thesis by (simp add: NextID_panic)
  next
    case later
    have "\<exists>i. msAt clk n = msAt clk i" by blast
    with later assms show ?thesis
      by (auto simp: NextID_later signed.less_asym)
  next
    case same
    have "\<exists>i. lastTimestamp s = msAt clk i" using same(1) by metis
    with same assms show ?thesis
      by (auto simp: NextID_same and_mask_seq_le)
  next
    case wrap
    then have eq: "msAt clk n = lastTimestamp s" by (simp add: exhausted_def)
    from assms obtain ms' where bw: "busyWait clk (lastTimestamp s) (lastTimestamp s) (Suc n) = Some (ms', n')"
      and r: "r = makeID s ms' 0" and s': "s' = s\<lparr>sequence := 0, lastTimestamp := ms'\<rparr>"
      by (auto simp: NextID_wrap [OF wrap] split: option.splits)
    from busyWait_Some [OF bw] obtain k where k: "lastTimestamp s <s msAt clk (Suc n + k)"
      "ms' = msAt clk (Suc n + k)" by auto
    have "\<exists>i. ms' = msAt clk i" using k(2) by blast
    with k r s' eq show ?thesis by simp
  qed
  then show "r = makeID s (lastTimestamp s') (sequence s')"
    and "sequence s' \<le> 4095"
    and "dataCenterID s' = dataCenterID s"
    and "workerID s' = workerID s"
    and "startTime s' = startTime s"
    and "\<exists>i. lastTimestamp s' = msAt clk i"
    and "\<not> msAt clk n <s lastTimestamp s"
    and "(lastTimestamp s <s lastTimestamp s' \<and> sequence s' = 0) \<or>
         (lastTimestamp s' = lastTimestamp s \<and> sequence s' = (sequence s + 1) AND sequenceMask \<and>
          sequence s' \<noteq> 0)"
    by blast+
qed

lemma NextID_Panic:
  assumes "NextID clk s n = Some (Panic m, s', n')"
  shows "s' = s" and "msAt clk n <s lastTimestamp s" and "n' = Suc n"
    and "m = ''Clock moved backwards, Refusing to generate id''"
proof -
  have "s' = s \<and> msAt clk n <s lastTimestamp s \<and> n' = Suc n \<and>
    m = ''Clock moved backwards, Refusing to generate id''"
  proof (cases clk n s rule: NextID_cases)
    case backwards
    with assms show ?thesis by (simp add: NextID_panic)
  next
    case later
    with assms show ?thesis by (simp add: NextID_later)
  next
    case same
    with assms show ?thesis by (simp add: NextID_same)
  next
    case wrap
    with assms show ?thesis by (auto simp: NextID_wrap split: option.splits)
  qed
  then show "s' = s" and "msAt clk n <s lastTimestamp s" and "n' = Suc n"
    and "m = ''Clock moved backwards, Refusing to generate id''" by blast+
qed

text \<open>
  The order of identifiers follows the order of (timestamp, sequence) as long as the
  elapsed milliseconds fit the timestamp field.
\<close>

lemma makeID_cfg:
  "startTime a = startTime b \<Longrightarrow> dataCenterID a = dataCenterID b \<Longrightarrow> workerID a = workerID b \<Longrightarrow>
   makeID a ms q = makeID b ms q"
  by (simp add: makeID_def)

lemma sint_elapsed:
  "sint (msAt clk i - startMs s) = sint (msAt clk i) - sint (startMs s)"
proof -
  have a: "- (2 ^ 44) < sint (msAt clk i) \<and> sint (msAt clk i) < 2 ^ 44"
    unfolding msAt_eq by (rule div64_ms_bound)
  have b: "- (2 ^ 44) < sint (startMs s) \<and> sint (startMs s) < 2 ^ 44"
    unfolding startMs_def by (rule div64_ms_bound)
  have "sint (msAt clk i - startMs s) = signed_take_bit 63 (sint (msAt clk i) - sint (startMs s))"
    by (simp add: sint_word_diff)
  also have "\<dots> = sint (msAt clk i) - sint (startMs s)"
    using a b by (intro signed_take_bit_int_eq_self) simp_all
  finally show ?thesis .
qed

lemma pack_less:
  fixes ea eb la lb :: int
  assumes "0 \<le> la" "la < 2 ^ 22" "0 \<le> lb" "lb < 2 ^ 22"
    and "ea < eb \<or> ea = eb \<and> la < lb"
  shows "ea * 2 ^ 22 + la < eb * 2 ^ 22 + lb"
proof -
  from assms(5) show ?thesis
  proof
    assume "ea < eb"
    then have "ea + 1 \<le> eb" by simp
    then have "(ea + 1) * 2 ^ 22 \<le> eb * 2 ^ 22" by (rule mult_right_mono) simp
    with assms(1-4) show ?thesis by (simp add: algebra_simps)
  next
    assume "ea = eb \<and> la < lb"
    then show ?thesis by simp
  qed
qed

lemma lastID_mono:
  assumes cfg: "startTime a = startTime b" "dataCenterID a = dataCenterID b" "workerID a = workerID b"
    and rng: "dataCenterID a \<le> 31" "workerID a \<le> 31" "sequence a \<le> 4095" "sequence b \<le> 4095"
    and rd: "lastTimestamp a = msAt clk i" "lastTimestamp b = msAt clk j"
    and fit: "fits a (lastTimestamp a)" "fits b (lastTimestamp b)"
    and lt: "precedes a b"
  shows "lastID a <s lastID b"
proof -
  let ?ea = "lastTimestamp a - startMs a" and ?eb = "lastTimestamp b - startMs b"
  let ?la = "lowFields (dataCenterID a) (workerID a) (sequence a)"
  let ?lb = "lowFields (dataCenterID b) (workerID b) (sequence b)"
  have st: "startMs a = startMs b" using cfg(1) by (simp add: startMs_def)
  have va: "sint (lastID a) = sint ?ea * 2 ^ 22 + uint ?la"
    unfolding lastID_def makeID_eq using rng(1-3) fit(1) by (intro sint_id) (simp_all add: fits_def)
  have vb: "sint (lastID b) = sint ?eb * 2 ^ 22 + uint ?lb"
    unfolding lastID_def makeID_eq using rng(1,2,4) cfg(2,3) fit(2)
    by (intro sint_id) (simp_all add: fits_def)
  have la: "uint ?la = uint (dataCenterID a) * 2 ^ 17 + uint (workerID a) * 2 ^ 12 + uint (sequence a)"
    using rng(1-3) by (rule uint_lowFields)
  have lb: "uint ?lb = uint (dataCenterID a) * 2 ^ 17 + uint (workerID a) * 2 ^ 12 + uint (sequence b)"
    using rng(1,2,4) cfg(2,3) uint_lowFields [of "dataCenterID b" "workerID b" "sequence b"] by simp
  have bnd: "uint (dataCenterID a) \<le> 31" "uint (workerID a) \<le> 31" "uint (sequence a) \<le> 4095"
    "uint (sequence b) \<le> 4095"
    using rng by (simp_all add: word_le_def)
  have ea: "sint ?ea = sint (lastTimestamp a) - sint (startMs a)"
    unfolding rd(1) by (rule sint_elapsed)
  have eb: "sint ?eb = sint (lastTimestamp b) - sint (startMs a)"
    unfolding rd(2) st [symmetric] using sint_elapsed [of clk j a] by simp
  have key: "sint ?ea < sint ?eb \<or> sint ?ea = sint ?eb \<and> uint ?la < uint ?lb"
    using lt unfolding precedes_def ea eb la lb
    by (auto simp: word_sless_alt word_less_def)
  have "sint ?ea * 2 ^ 22 + uint ?la < sint ?eb * 2 ^ 22 + uint ?lb"
    using key
  proof (rule pack_less [rotated 4])
    show "0 \<le> uint ?la" by simp
    show "0 \<le> uint ?lb" by simp
    show "uint ?la < 2 ^ 22" unfolding la using bnd by simp
    show "uint ?lb < 2 ^ 22" unfolding lb using bnd by simp
  qed
  then show ?thesis
    unfolding word_sless_alt va vb .
qed

lemma seq_step:
  fixes q :: int16
  assumes "q \<le> 4095" "q \<noteq> 4095"
  shows "(q + 1) AND sequenceMask = q + 1" and "uint (q + 1) = uint q + 1"
proof -
  have u: "uint q \<le> 4095" using assms(1) by (simp add: word_le_def)
  have "uint q \<noteq> 4095" using assms(2) by (metis word_of_int_uint of_int_numeral)
  with u have u': "uint q < 4095" by simp
  show s: "uint (q + 1) = uint q + 1"
    using u' by (simp add: uint_word_ariths take_bit_int_eq_self)
  then have "q + 1 < 2 ^ 12" using u' by (simp add: word_less_def)
  then have "(q + 1) AND mask 12 = q + 1" by (rule less_mask_eq)
  then show "(q + 1) AND sequenceMask = q + 1" by (simp add: sequenceMask_def mask_eq_exp_minus_1)
qed

lemma seq_wrap:
  fixes q :: int16
  assumes "q \<le> 4095"
  shows "((q + 1) AND sequenceMask = 0) = (q = 4095)"
proof
  assume z: "(q + 1) AND sequenceMask = 0"
  show "q = 4095"
  proof (rule ccontr)
    assume ne: "q \<noteq> 4095"
    from seq_step [OF assms ne] z have "uint (0 :: int16) = uint q + 1" by simp
    then have "uint q = - 1" by simp
    then show False using uint_ge_0 [of q] by arith
  qed
next
  assume "q = 4095"
  then show "(q + 1) AND sequenceMask = 0" by (simp add: sequenceMask_def)
qed

lemma seq_succ:
  fixes q :: int16
  assumes "q \<le> 4095" "(q + 1) AND sequenceMask \<noteq> 0"
  shows "q < (q + 1) AND sequenceMask"
proof -
  have ne: "q \<noteq> 4095" using assms seq_wrap [of q] by simp
  from seq_step [OF assms(1) ne] show ?thesis by (simp add: word_less_def)
qed

lemma valid_seq: "valid s \<Longrightarrow> sequence s \<le> 4095"
  using seq_signed [of "sequence s"] by (simp add: valid_def)

lemma validI: "dataCenterID s \<le> 31 \<Longrightarrow> workerID s \<le> 31 \<Longrightarrow> sequence s \<le> 4095 \<Longrightarrow> valid s"
  using seq_signed [of "sequence s"] by (simp add: valid_def)

lemma NextID_precedes:
  assumes "valid s" "NextID clk s n = Some (Return r, s', n')"
  shows "precedes s s'"
  using NextID_Return(8) [OF assms(2)] seq_succ [OF valid_seq [OF assms(1)]]
  by (auto simp: precedes_def)

lemma NextID_valid:
  assumes "valid s" "NextID clk s n = Some (Return r, s', n')"
  shows "valid s'"
  using NextID_Return(2-4) [OF assms(2)] assms(1)
  by (intro validI) (simp_all add: valid_def)

lemma precedes_trans: "precedes a b \<Longrightarrow> precedes b c \<Longrightarrow> precedes a c"
  unfolding precedes_def by (auto intro: signed.less_trans)

lemma fits_cfg: "startTime a = startTime b \<Longrightarrow> fits a ms = fits b ms"
  by (simp add: fits_def startMs_def)

lemma NextID_lastID:
  assumes "NextID clk s n = Some (Return r, s', n')"
  shows "r = lastID s'"
  unfolding lastID_def NextID_Return(1) [OF assms]
  using NextID_Return(3-5) [OF assms] by (intro makeID_cfg) simp_all

lemma NextIDs_elems:
  assumes "valid s" "r \<in> set (NextIDs clk k s n)"
  shows "\<exists>s'. r = lastID s' \<and> startTime s' = startTime s \<and> dataCenterID s' = dataCenterID s \<and>
           workerID s' = workerID s \<and> sequence s' \<le> 4095 \<and> (\<exists>i. lastTimestamp s' = msAt clk i) \<and>
           precedes s s'"
  using assms
proof (induction k arbitrary: s n)
  case 0
  then show ?case by simp
next
  case (Suc k)
  show ?case
  proof (cases "NextID clk s n")
    case None
    with Suc.prems(2) show ?thesis by simp
  next
    case (Some x)
    obtain out s1 n1 where x: "x = (out, s1, n1)" by (cases x)
    show ?thesis
    proof (cases out)
      case (Panic m)
      with Some x have call: "NextID clk s n = Some (Panic m, s1, n1)" by simp
      then have "s1 = s" by (rule NextID_Panic(1))
      with call Suc.prems(2) have "r \<in> set (NextIDs clk k s n1)" by simp
      with Suc.prems(1) show ?thesis by (rule Suc.IH)
    next
      case (Return r1)
      with Some x have call: "NextID clk s n = Some (Return r1, s1, n1)" by simp
      note ret = NextID_Return [OF call]
      have v1: "valid s1" using Suc.prems(1) call by (rule NextID_valid)
      have p1: "precedes s s1" using Suc.prems(1) call by (rule NextID_precedes)
      from call Suc.prems(2) have "r = r1 \<or> r \<in> set (NextIDs clk k s1 n1)" by simp
      then show ?thesis
      proof
        assume "r = r1"
        then have "r = lastID s1" using NextID_lastID [OF call] by simp
        with ret(2-6) p1 show ?thesis by blast
      next
        assume "r \<in> set (NextIDs clk k s1 n1)"
        with v1 obtain s' where s': "r = lastID s'" "startTime s' = startTime s1"
          "dataCenterID s' = dataCenterID s1" "workerID s' = workerID s1" "sequence s' \<le> 4095"
          "\<exists>i. lastTimestamp s' = msAt clk i" "precedes s1 s'"
          using Suc.IH [of s1 n1] by blast
        have "precedes s s'" using p1 s'(7) by (rule precedes_trans)
        with s' ret(3-5) show ?thesis by auto
      qed
    qed
  qed
qed

text \<open>The example clocks, and the generators that construction gives.\<close>

lemma clockOf_single [simp]: "clockOf [a] i = atMs a"
  by (simp add: clockOf_def)

lemma clockOf_0 [simp]: "clockOf (a # r) 0 = atMs a"
  by (simp add: clockOf_def)

lemma clockOf_Suc [simp]: "clockOf (a # b # r) (Suc i) = clockOf (b # r) i"
  by (simp add: clockOf_def)

lemma nondecreasing_single: "nondecreasing (clockOf [a])"
  by (simp add: nondecreasing_def)

lemma nondecreasing_Cons:
  assumes "UnixNano (atMs a) \<le>s UnixNano (atMs b)" "nondecreasing (clockOf (b # r))"
  shows "nondecreasing (clockOf (a # b # r))"
  unfolding nondecreasing_def
proof
  fix i
  show "UnixNano (clockOf (a # b # r) i) \<le>s UnixNano (clockOf (a # b # r) (Suc i))"
    using assms by (cases i) (simp_all add: nondecreasing_def)
qed

lemma msAt_clockOf:
  assumes "ms \<noteq> []" "\<And>m. m \<in> set ms \<Longrightarrow> Q (msAt (clockOf [m]) 0)"
  shows "Q (msAt (clockOf ms) i)"
proof -
  have "ms ! min i (length ms - 1) \<in> set ms"
    using assms(1) by (intro nth_mem) (cases ms, simp_all add: min_def)
  from assms(2) [OF this] show ?thesis
    by (simp add: msAt_eq clockOf_def)
qed

lemma valid_NewWith: "valid (NewWith t ids env)"
proof -
  have "dataCenterID (NewWith t ids env) \<le> 31"
    by (simp add: NewWith_def Let_def dataCenterMask_def and_31_le split: prod.split)
  moreover have "workerID (NewWith t ids env) \<le> 31"
    by (simp add: NewWith_def Let_def workerMask_def and_31_le split: prod.split)
  moreover have "sequence (NewWith t ids env) = 0"
    by (simp add: NewWith_def Let_def split: prod.split)
  ultimately show ?thesis by (intro validI) simp_all
qed

lemma valid_gen1970: "valid gen1970"
  unfolding gen1970_def by (rule valid_NewWith)

section \<open>Properties of the callers\<close>

text \<open>A clock that does not move backward in nanoseconds does not in milliseconds.\<close>

lemma nondecreasing_ms: "nondecreasing clk \<Longrightarrow> msAt clk i \<le>s msAt clk (Suc i)"
  by (simp add: nondecreasing_def msAt_eq UTC_def UnixNano_def div64_ms_mono)

text \<open>
  A goroutine that runs alone takes the steps of \<^verbatim>\<open>NextID\<close>: whatever the sequential
  call reaches, some number of steps of the single goroutine reaches too.
\<close>

lemma run_append:
  "run clk (ts @ us) c = (case run clk ts c of None \<Rightarrow> None | Some c' \<Rightarrow> run clk us c')"
  by (induction ts arbitrary: c) (simp_all split: option.split)

lemma run_wait:
  assumes "\<forall>i<k. msAt clk (n + i) \<le>s lastTimestamp sh" "lastTimestamp sh <s msAt clk (n + k)"
    "ms \<le>s lastTimestamp sh"
  shows "run clk (replicate (k + 2) 0) \<lparr>shared = sh, mutex = m, readings = n, calls = [AtWait ms]\<rparr>
     = Some \<lparr>shared = sh, mutex = m, readings = Suc (n + k), calls = [AtStore (msAt clk (n + k))]\<rparr>"
  using assms
proof (induction k arbitrary: n ms)
  case 0
  then have "\<not> msAt clk n \<le>s lastTimestamp sh" by (simp add: signed.not_le)
  with 0(3) show ?case
    by (simp add: numeral_2_eq_2 step_def move_def genMillisecond_def msAt_def)
next
  case (Suc k)
  have first: "msAt clk n \<le>s lastTimestamp sh" using Suc.prems(1) by (metis add.right_neutral zero_less_Suc)
  have rest: "\<forall>i<k. msAt clk (Suc n + i) \<le>s lastTimestamp sh"
    using Suc.prems(1) by (metis Suc_less_eq add_Suc_right add_Suc)
  have "run clk (replicate (k + 2) 0) \<lparr>shared = sh, mutex = m, readings = Suc n, calls = [AtWait (msAt clk n)]\<rparr>
     = Some \<lparr>shared = sh, mutex = m, readings = Suc (Suc n + k), calls = [AtStore (msAt clk (Suc n + k))]\<rparr>"
    using rest Suc.prems(2) first by (intro Suc.IH) simp_all
  with Suc.prems(3) show ?case
    by (simp add: step_def move_def genMillisecond_def msAt_def)
qed

lemma solo_agrees:
  assumes "NextID clk s n = Some (out, s', n')"
  shows "\<exists>j. run clk (replicate j 0) \<lparr>shared = s, mutex = None, readings = n, calls = [AtNow]\<rparr>
           = Some \<lparr>shared = s', mutex = None, readings = n', calls = [Finished out]\<rparr>"
proof (cases clk n s rule: NextID_cases)
  case backwards
  with assms have "run clk (replicate 2 0) \<lparr>shared = s, mutex = None, readings = n, calls = [AtNow]\<rparr>
           = Some \<lparr>shared = s', mutex = None, readings = n', calls = [Finished out]\<rparr>"
    by (auto simp: NextID_panic numeral_2_eq_2 step_def move_def msAt_eq)
  then show ?thesis ..
next
  case later
  then have "\<not> msAt clk n <s lastTimestamp s" "msAt clk n \<noteq> lastTimestamp s"
    by (auto simp: signed.less_asym)
  with later assms have "run clk (replicate 7 0) \<lparr>shared = s, mutex = None, readings = n, calls = [AtNow]\<rparr>
           = Some \<lparr>shared = s', mutex = None, readings = n', calls = [Finished out]\<rparr>"
    by (auto simp: NextID_later eval_nat_numeral step_def move_def msAt_eq)
  then show ?thesis ..
next
  case same
  with assms have "run clk (replicate 7 0) \<lparr>shared = s, mutex = None, readings = n, calls = [AtNow]\<rparr>
           = Some \<lparr>shared = s', mutex = None, readings = n', calls = [Finished out]\<rparr>"
    by (auto simp: NextID_same eval_nat_numeral step_def move_def msAt_eq Let_def)
  then show ?thesis ..
next
  case wrap
  let ?s1 = "s\<lparr>sequence := 0\<rparr>"
  from assms obtain ms' where bw: "busyWait clk (lastTimestamp s) (lastTimestamp s) (Suc n) = Some (ms', n')"
    and out: "out = Return (makeID s ms' 0)" and s': "s' = s\<lparr>sequence := 0, lastTimestamp := ms'\<rparr>"
    by (auto simp: NextID_wrap [OF wrap] split: option.splits)
  from busyWait_Some [OF bw] obtain k where k: "\<forall>i<k. msAt clk (Suc n + i) \<le>s lastTimestamp s"
    "lastTimestamp s <s msAt clk (Suc n + k)" "ms' = msAt clk (Suc n + k)" "n' = Suc (Suc n + k)"
    by auto
  have a: "run clk (replicate 4 0) \<lparr>shared = s, mutex = None, readings = n, calls = [AtNow]\<rparr>
      = Some \<lparr>shared = ?s1, mutex = Some 0, readings = Suc n, calls = [AtWait (lastTimestamp s)]\<rparr>"
    using wrap by (simp add: exhausted_def eval_nat_numeral step_def move_def msAt_eq Let_def)
  have b: "run clk (replicate (k + 2) 0)
        \<lparr>shared = ?s1, mutex = Some 0, readings = Suc n, calls = [AtWait (lastTimestamp s)]\<rparr>
      = Some \<lparr>shared = ?s1, mutex = Some 0, readings = n', calls = [AtStore ms']\<rparr>"
    unfolding k(3,4) using k(1,2) by (intro run_wait) simp_all
  have c: "run clk (replicate 3 0) \<lparr>shared = ?s1, mutex = Some 0, readings = n', calls = [AtStore ms']\<rparr>
      = Some \<lparr>shared = s', mutex = None, readings = n', calls = [Finished out]\<rparr>"
    by (simp add: out s' eval_nat_numeral step_def move_def Let_def)
  have "run clk (replicate 4 0 @ replicate (k + 2) 0 @ replicate 3 0)
          \<lparr>shared = s, mutex = None, readings = n, calls = [AtNow]\<rparr>
      = Some \<lparr>shared = s', mutex = None, readings = n', calls = [Finished out]\<rparr>"
    by (simp only: run_append a b c option.case)
  then have "run clk (replicate (4 + (k + 2) + 3) 0)
          \<lparr>shared = s, mutex = None, readings = n, calls = [AtNow]\<rparr>
      = Some \<lparr>shared = s', mutex = None, readings = n', calls = [Finished out]\<rparr>"
    by (simp only: replicate_add append_assoc)
  then show ?thesis ..
qed

text \<open>
  The calls of one millisecond: the first call of a new millisecond and the calls that
  follow it in the same millisecond return the sequences 0, 1, 2 and so on, and 4096 of
  them leave the sequence at 4095.
\<close>

lemma NextIDs_add:
  "NextIDs clk (a + b) s n =
     NextIDs clk a s n @
     (case afterCalls clk a s n of None \<Rightarrow> [] | Some (s', n') \<Rightarrow> NextIDs clk b s' n')"
proof (induction a arbitrary: s n)
  case 0
  show ?case by simp
next
  case (Suc a)
  show ?case
  proof (cases "NextID clk s n")
    case None
    then show ?thesis by simp
  next
    case (Some x)
    obtain out s1 n1 where x: "x = (out, s1, n1)" by (cases x)
    with Some Suc.IH [of s1 n1] show ?thesis by (cases out) simp_all
  qed
qed

lemma seq_of_nat:
  assumes "j \<le> 4095"
  shows "(of_nat j :: int16) \<le> 4095" and "j < 4095 \<Longrightarrow> (of_nat j :: int16) \<noteq> 4095"
proof -
  have u: "unat (of_nat j :: int16) = j"
    using assms by (simp add: unat_of_nat)
  show "(of_nat j :: int16) \<le> 4095"
    using assms by (simp add: word_le_nat_alt u)
  show "(of_nat j :: int16) \<noteq> 4095" if "j < 4095"
  proof
    assume "(of_nat j :: int16) = 4095"
    then have "unat (of_nat j :: int16) = unat (4095 :: int16)" by simp
    with u that show False by simp
  qed
qed

lemma same_ms_calls:
  assumes "lastTimestamp s = M" "sequence s = of_nat j" "j + k \<le> 4095"
    "\<forall>i<k. msAt clk (n + i) = M"
  shows "afterCalls clk k s n = Some (s\<lparr>sequence := of_nat (j + k)\<rparr>, n + k) \<and>
         NextIDs clk k s n = map (\<lambda>i. makeID s M (of_nat i)) [Suc j ..< Suc (j + k)]"
  using assms
proof (induction k arbitrary: s n j)
  case 0
  then show ?case by simp
next
  case (Suc k)
  let ?s1 = "s\<lparr>sequence := of_nat (Suc j)\<rparr>"
  have j: "j < 4095" "j \<le> 4095" using Suc.prems(3) by simp_all
  have q: "sequence s \<le> 4095" "sequence s \<noteq> 4095"
    using seq_of_nat [OF j(2)] j(1) Suc.prems(2) by simp_all
  have nxt: "(sequence s + 1) AND sequenceMask = of_nat (Suc j)"
    using seq_step(1) [OF q] Suc.prems(2) by simp
  have nz: "(sequence s + 1) AND sequenceMask \<noteq> 0"
    using seq_wrap [OF q(1)] q(2) by simp
  have rd: "msAt clk n = lastTimestamp s"
    using Suc.prems(1,4) by (metis add.right_neutral zero_less_Suc)
  have call: "NextID clk s n = Some (Return (makeID s M (of_nat (Suc j))), ?s1, Suc n)"
    using NextID_same [OF rd nz] nxt Suc.prems(1) by simp
  have rest: "\<forall>i<k. msAt clk (Suc n + i) = M"
    using Suc.prems(4) by (metis Suc_less_eq add_Suc_right add_Suc)
  have ih: "afterCalls clk k ?s1 (Suc n) = Some (?s1\<lparr>sequence := of_nat (Suc j + k)\<rparr>, Suc n + k) \<and>
         NextIDs clk k ?s1 (Suc n) = map (\<lambda>i. makeID ?s1 M (of_nat i)) [Suc (Suc j) ..< Suc (Suc j + k)]"
    using Suc.prems(1,3) rest by (intro Suc.IH) simp_all
  have l: "[Suc j ..< Suc (j + Suc k)] = Suc j # [Suc (Suc j) ..< Suc (Suc j + k)]"
    by (simp add: upt_conv_Cons)
  show ?case
    unfolding l using call ih by simp
qed

lemma first_calls:
  assumes "lastTimestamp s <s M" "k \<le> 4095" "\<forall>i\<le>k. msAt clk (n + i) = M"
  shows "afterCalls clk (Suc k) s n = Some (s\<lparr>sequence := of_nat k, lastTimestamp := M\<rparr>, Suc (n + k)) \<and>
         NextIDs clk (Suc k) s n = map (\<lambda>i. makeID s M (of_nat i)) [0 ..< Suc k]"
proof -
  let ?s1 = "s\<lparr>sequence := 0, lastTimestamp := M\<rparr>"
  have rd: "msAt clk n = M" using assms(3) by (metis add.right_neutral le0)
  have call: "NextID clk s n = Some (Return (makeID s M 0), ?s1, Suc n)"
    using NextID_later [of s clk n] assms(1) rd by simp
  have rest: "\<forall>i<k. msAt clk (Suc n + i) = M"
  proof (intro allI impI)
    fix i :: nat assume "i < k"
    then have "Suc i \<le> k" by simp
    with assms(3) have "msAt clk (n + Suc i) = M" by blast
    then show "msAt clk (Suc n + i) = M" by simp
  qed
  have more: "afterCalls clk k ?s1 (Suc n) = Some (?s1\<lparr>sequence := of_nat (0 + k)\<rparr>, Suc n + k) \<and>
         NextIDs clk k ?s1 (Suc n) = map (\<lambda>i. makeID ?s1 M (of_nat i)) [Suc 0 ..< Suc (0 + k)]"
    using rest assms(2) by (intro same_ms_calls) simp_all
  have l: "[0 ..< Suc k] = 0 # [Suc 0 ..< Suc (0 + k)]"
    by (simp add: upt_conv_Cons)
  show ?thesis
    unfolding l using call more by simp
qed

lemma usedUp_reached:
  "afterCalls (clockOf [5]) (Suc 4095) gen1970 0 = Some (usedUp 5, Suc 4095)"
  "afterCalls (clockOf [2199023255551]) (Suc 4095) gen1970 0
     = Some (usedUp 2199023255551, Suc 4095)"
proof -
  have z: "lastTimestamp gen1970 <s 5" "lastTimestamp gen1970 <s 2199023255551"
    by code_simp+
  have k: "(4095 :: nat) \<le> 4095" by simp
  have a: "msAt (clockOf [5]) j = 5" for j
    by (rule msAt_clockOf) (auto, code_simp)
  have b: "msAt (clockOf [2199023255551]) j = 2199023255551" for j
    by (rule msAt_clockOf) (auto, code_simp)
  have u: "gen1970\<lparr>sequence := of_nat 4095, lastTimestamp := 5\<rparr> = usedUp 5"
    "gen1970\<lparr>sequence := of_nat 4095, lastTimestamp := 2199023255551\<rparr> = usedUp 2199023255551"
    by (simp_all add: usedUp_def)
  have "afterCalls (clockOf [5]) (Suc 4095) gen1970 0
      = Some (gen1970\<lparr>sequence := of_nat 4095, lastTimestamp := 5\<rparr>, Suc (0 + 4095))"
    using first_calls [OF z(1) k, of "clockOf [5]" 0] a by blast
  then show "afterCalls (clockOf [5]) (Suc 4095) gen1970 0 = Some (usedUp 5, Suc 4095)"
    by (simp only: u add_0)
  have "afterCalls (clockOf [2199023255551]) (Suc 4095) gen1970 0
      = Some (gen1970\<lparr>sequence := of_nat 4095, lastTimestamp := 2199023255551\<rparr>, Suc (0 + 4095))"
    using first_calls [OF z(2) k, of "clockOf [2199023255551]" 0] b by blast
  then show "afterCalls (clockOf [2199023255551]) (Suc 4095) gen1970 0
     = Some (usedUp 2199023255551, Suc 4095)"
    by (simp only: u add_0)
qed

section \<open>The claims\<close>

text \<open>
  Claim C1, as amended. For one generator whose fields are within their bit widths (as
  every constructed generator's are), if the elapsed milliseconds of every clock reading
  fit the timestamp field of an identifier (from \<open>- 2 ^ 41\<close> up to, not including,
  \<open>2 ^ 41\<close>), then the identifiers returned by a sequential series of calls are strictly
  increasing: each is greater than every one returned before it, so they are pairwise
  distinct. Nothing is assumed of the order of the clock readings: a reading earlier than
  the last timestamp makes the call panic, which returns no identifier.
\<close>

theorem NextIDs_increasing:
  assumes "valid s" "\<forall>i. fits s (msAt clk i)"
  shows "sorted_wrt (<s) (NextIDs clk k s n)"
  using assms
proof (induction k arbitrary: s n)
  case 0
  then show ?case by simp
next
  case (Suc k)
  show ?case
  proof (cases "NextID clk s n")
    case None
    then show ?thesis by simp
  next
    case (Some x)
    obtain out s1 n1 where x: "x = (out, s1, n1)" by (cases x)
    show ?thesis
    proof (cases out)
      case (Panic m)
      with Some x have call: "NextID clk s n = Some (Panic m, s1, n1)" by simp
      then have "s1 = s" by (rule NextID_Panic(1))
      with call Suc.IH [OF Suc.prems] show ?thesis by simp
    next
      case (Return r1)
      with Some x have call: "NextID clk s n = Some (Return r1, s1, n1)" by simp
      note ret = NextID_Return [OF call]
      have v1: "valid s1" using Suc.prems(1) call by (rule NextID_valid)
      have f1: "\<forall>i. fits s1 (msAt clk i)"
        using Suc.prems(2) fits_cfg [OF ret(5)] by simp
      have tail: "sorted_wrt (<s) (NextIDs clk k s1 n1)" using v1 f1 by (rule Suc.IH)
      have head: "r1 <s r" if "r \<in> set (NextIDs clk k s1 n1)" for r
      proof -
        from NextIDs_elems [OF v1 that] obtain s' where s': "r = lastID s'"
          "startTime s' = startTime s1" "dataCenterID s' = dataCenterID s1"
          "workerID s' = workerID s1" "sequence s' \<le> 4095"
          "\<exists>i. lastTimestamp s' = msAt clk i" "precedes s1 s'" by blast
        from ret(6) obtain i where i: "lastTimestamp s1 = msAt clk i" by blast
        from s'(6) obtain j where j: "lastTimestamp s' = msAt clk j" by blast
        have f': "fits s' (lastTimestamp s')" using f1 fits_cfg [OF s'(2)] j by simp
        have "lastID s1 <s lastID s'"
          using s'(2-4) [symmetric] v1 ret(2) s'(5) i j f1 f' s'(7)
          by (intro lastID_mono [where clk = clk and i = i and j = j]) (simp_all add: valid_def)
        then show ?thesis using NextID_lastID [OF call] s'(1) by simp
      qed
      from call tail head show ?thesis by simp
    qed
  qed
qed

theorem NextIDs_increasing_witness:
  "valid gen1970 \<and> (\<forall>i. fits gen1970 (msAt (clockOf [5, 5, 7]) i)) \<and>
   NextIDs (clockOf [5, 5, 7]) 3 gen1970 0 = [21110784, 21110785, 29499392] \<and>
   sorted_wrt (<s) (NextIDs (clockOf [5, 5, 7]) 3 gen1970 0)"
proof -
  have f: "\<forall>i. fits gen1970 (msAt (clockOf [5, 5, 7]) i)"
  proof
    fix i
    show "fits gen1970 (msAt (clockOf [5, 5, 7]) i)"
      by (rule msAt_clockOf) (auto, code_simp+)
  qed
  have e: "NextIDs (clockOf [5, 5, 7]) 3 gen1970 0 = [21110784, 21110785, 29499392]"
    by code_simp
  from NextIDs_increasing [OF valid_gen1970 f, of 3 0] valid_gen1970 f e show ?thesis
    by blast
qed

text \<open>
  Claim C1 as it is written fails when the elapsed milliseconds leave the 41 bits of the
  timestamp field. The generator's epoch is 1970-01-01; the clock reads
  \<open>2 ^ 41 - 1\<close> milliseconds and then \<open>2 ^ 41\<close> milliseconds after it (a day of the year
  2039), which is not a step backward. The second identifier has the sign bit set and is
  smaller than the first.
\<close>

theorem NextIDs_increasing_counterexample:
  "nondecreasing (clockOf [2199023255551, 2199023255552]) \<and>
   NextIDs (clockOf [2199023255551, 2199023255552]) 2 gen1970 0
     = [9223372036850720768, - 9223372036854636544] \<and>
   (- 9223372036854636544 :: int64) <s 9223372036850720768 \<and>
   \<not> sorted_wrt (<s) (NextIDs (clockOf [2199023255551, 2199023255552]) 2 gen1970 0)"
proof -
  have "nondecreasing (clockOf [2199023255551, 2199023255552])"
    by (intro nondecreasing_Cons nondecreasing_single) (simp add: atMs_def UnixNano_def)
  moreover have "NextIDs (clockOf [2199023255551, 2199023255552]) 2 gen1970 0
     = [9223372036850720768, - 9223372036854636544]"
    by code_simp
  moreover have "(- 9223372036854636544 :: int64) <s 9223372036850720768"
    by simp
  ultimately show ?thesis by (simp add: signed.less_asym)
qed

text \<open>
  Claim C2, as amended. An identifier returned by \<^verbatim>\<open>NextID\<close> on a generator whose
  fields are within their bit widths is
  \<^verbatim>\<open>elapsed<<22 | dataCenterID<<17 | workerID<<12 | sequence\<close>, where \<open>elapsed\<close> is the
  stored timestamp less the epoch in milliseconds; its bits 0 to 11 are the sequence
  captured by the call, a value from 0 to 4095, its bits 12 to 16 the worker id, its bits
  17 to 21 the data-center id, so no field overlaps another; and shifting it right by 22
  gives back \<open>elapsed\<close> exactly when \<open>elapsed\<close> fits the timestamp field
  (\<open>- 2 ^ 41 \<le> elapsed < 2 ^ 41\<close>). Whatever \<open>elapsed\<close> is, the bits from 22 upward are its
  low 42 bits.
\<close>

theorem NextID_layout:
  assumes "valid s" "NextID clk s n = Some (Return r, s', n')"
  shows "r = push_bit 22 (lastTimestamp s' - startMs s) OR push_bit 17 (ucast (dataCenterID s)) OR
             push_bit 12 (ucast (workerID s)) OR scast (sequence s') \<and>
         r AND 4095 = scast (sequence s') \<and> 0 \<le>s sequence s' \<and> sequence s' \<le>s 4095 \<and>
         signed_drop_bit 12 r AND 31 = ucast (workerID s) \<and>
         signed_drop_bit 17 r AND 31 = ucast (dataCenterID s) \<and>
         drop_bit 22 r = take_bit 42 (lastTimestamp s' - startMs s) \<and>
         (signed_drop_bit 22 r = lastTimestamp s' - startMs s) = fits s (lastTimestamp s')"
proof -
  note ret = NextID_Return [OF assms(2)]
  let ?e = "lastTimestamp s' - startMs s"
  have d: "dataCenterID s \<le> 31" and w: "workerID s \<le> 31"
    using assms(1) by (simp_all add: valid_def)
  have q: "sequence s' \<le> 4095" by (rule ret(2))
  have r: "r = push_bit 22 ?e OR lowFields (dataCenterID s) (workerID s) (sequence s')"
    unfolding ret(1) by (rule makeID_eq)
  have "r = push_bit 22 ?e OR push_bit 17 (ucast (dataCenterID s)) OR
             push_bit 12 (ucast (workerID s)) OR scast (sequence s')"
    unfolding r by (simp add: lowFields_def or.assoc)
  moreover have "r AND 4095 = scast (sequence s')"
    unfolding r using d w q by (simp add: field_seq scast_seq)
  moreover have "0 \<le>s sequence s' \<and> sequence s' \<le>s 4095"
    using q by (simp add: seq_signed)
  moreover have "signed_drop_bit 12 r AND 31 = ucast (workerID s)"
    unfolding r using d w q by (rule field_worker)
  moreover have "signed_drop_bit 17 r AND 31 = ucast (dataCenterID s)"
    unfolding r using d w q by (rule field_dc)
  moreover have "drop_bit 22 r = take_bit 42 ?e"
    unfolding r using d w q by (rule field_ts_bits)
  moreover have "(signed_drop_bit 22 r = ?e) = fits s (lastTimestamp s')"
    unfolding r fits_def
    using field_ts [OF d w q, of ?e] field_ts_only_if [OF d w q, of ?e] by blast
  ultimately show ?thesis by blast
qed

theorem NextID_layout_witness:
  "valid gen1970 \<and>
   NextID (clockOf [5]) gen1970 0 = Some (Return 21110784, gen1970\<lparr>lastTimestamp := 5\<rparr>, 1) \<and>
   (21110784 :: int64) AND 4095 = 0 \<and>
   signed_drop_bit 12 (21110784 :: int64) AND 31 = 2 \<and>
   signed_drop_bit 17 (21110784 :: int64) AND 31 = 1 \<and>
   signed_drop_bit 22 (21110784 :: int64) = 5"
proof -
  have e: "NextID (clockOf [5]) gen1970 0 = Some (Return 21110784, gen1970\<lparr>lastTimestamp := 5\<rparr>, 1)"
    by code_simp
  have f: "fits gen1970 5" by code_simp
  have s: "startMs gen1970 = 0" "dataCenterID gen1970 = 1" "workerID gen1970 = 2"
    "sequence gen1970 = 0"
    by code_simp+
  from NextID_layout [OF valid_gen1970 e] f s valid_gen1970 e show ?thesis
    by simp
qed

text \<open>
  Claim C2 as it is written fails for the shift by 22 when the elapsed milliseconds do
  not fit the field. The epoch is 1970-01-01 and the clock reads \<open>2 ^ 41\<close> milliseconds
  after it: the identifier is \<open>- 2 ^ 63\<close> with the identity bits, and shifting it right
  by 22 gives \<open>- 2 ^ 41\<close>, not the elapsed \<open>2 ^ 41\<close>.
\<close>

theorem NextID_layout_counterexample:
  "valid gen1970 \<and>
   NextID (clockOf [2199023255552]) gen1970 0
     = Some (Return (- 9223372036854636544), gen1970\<lparr>lastTimestamp := 2199023255552\<rparr>, 1) \<and>
   2199023255552 - startMs gen1970 = 2199023255552 \<and>
   signed_drop_bit 22 (- 9223372036854636544 :: int64) = - 2199023255552 \<and>
   (- 2199023255552 :: int64) \<noteq> 2199023255552"
proof -
  have "NextID (clockOf [2199023255552]) gen1970 0
     = Some (Return (- 9223372036854636544), gen1970\<lparr>lastTimestamp := 2199023255552\<rparr>, 1)"
    by code_simp
  moreover have "2199023255552 - startMs gen1970 = 2199023255552"
    by code_simp
  moreover have "signed_drop_bit 22 (- 9223372036854636544 :: int64) = - 2199023255552"
    by code_simp
  moreover have "(- 2199023255552 :: int64) \<noteq> 2199023255552"
    by simp
  ultimately show ?thesis using valid_gen1970 by blast
qed

text \<open>
  Claim C3, as amended. \<^verbatim>\<open>NextID\<close> panics exactly when the clock reading it starts
  with is, in milliseconds, strictly less than \<open>lastTimestamp\<close>; the panic is the one of
  line 76, no identifier is returned and the generator is left as it was. In every
  other case the call does not panic, and it returns an identifier unless the sequence
  budget of the millisecond is used up and no later clock reading ever exceeds
  \<open>lastTimestamp\<close>: then, and only then, the call never returns.
\<close>

theorem NextID_outcome:
  "(NextID clk s n = Some (Panic ''Clock moved backwards, Refusing to generate id'', s, Suc n))
     = (msAt clk n <s lastTimestamp s) \<and>
   (\<forall>m s' n'. NextID clk s n = Some (Panic m, s', n') \<longrightarrow>
      msAt clk n <s lastTimestamp s \<and> s' = s \<and>
      m = ''Clock moved backwards, Refusing to generate id'') \<and>
   (\<exists>r s' n'. NextID clk s n = Some (Return r, s', n'))
     = (\<not> msAt clk n <s lastTimestamp s \<and>
        (exhausted clk s n \<longrightarrow> (\<exists>k. lastTimestamp s <s msAt clk (Suc n + k)))) \<and>
   (NextID clk s n = None)
     = (exhausted clk s n \<and> (\<forall>k. msAt clk (Suc n + k) \<le>s lastTimestamp s))"
proof (cases clk n s rule: NextID_cases)
  case backwards
  then have "\<not> exhausted clk s n" by (auto simp: exhausted_def)
  with backwards show ?thesis by (simp add: NextID_panic)
next
  case later
  then have "\<not> exhausted clk s n" "\<not> msAt clk n <s lastTimestamp s"
    by (auto simp: exhausted_def signed.less_asym)
  with later show ?thesis by (simp add: NextID_later)
next
  case same
  then have "\<not> exhausted clk s n" "\<not> msAt clk n <s lastTimestamp s"
    by (auto simp: exhausted_def)
  with same show ?thesis by (simp add: NextID_same)
next
  case wrap
  then have nb: "\<not> msAt clk n <s lastTimestamp s" by (simp add: exhausted_def)
  show ?thesis
  proof (cases "\<exists>k. lastTimestamp s <s msAt clk (Suc n + k)")
    case True
    then obtain k where k: "lastTimestamp s <s msAt clk (Suc n + k)"
      "\<forall>i<k. \<not> lastTimestamp s <s msAt clk (Suc n + i)"
      using exists_least_iff [of "\<lambda>k. lastTimestamp s <s msAt clk (Suc n + k)"] by blast
    have "busyWait clk (lastTimestamp s) (lastTimestamp s) (Suc n)
          = Some (msAt clk (Suc n + k), Suc (Suc n + k))"
      using k by (intro busyWait_finds) (simp_all add: signed.not_less)
    then have "NextID clk s n = Some (Return (makeID s (msAt clk (Suc n + k)) 0),
        s\<lparr>sequence := 0, lastTimestamp := msAt clk (Suc n + k)\<rparr>, Suc (Suc n + k))"
      by (simp add: NextID_wrap [OF wrap])
    moreover have "\<not> (\<forall>k. msAt clk (Suc n + k) \<le>s lastTimestamp s)"
      using k(1) signed.not_le by blast
    ultimately show ?thesis using nb wrap True by simp
  next
    case False
    then have all: "\<forall>k. msAt clk (Suc n + k) \<le>s lastTimestamp s"
      by (simp add: signed.not_less)
    have "busyWait clk (lastTimestamp s) (lastTimestamp s) (Suc n) = None"
      using all by (intro busyWait_never) simp_all
    then have "NextID clk s n = None" by (simp add: NextID_wrap [OF wrap])
    with nb wrap False all show ?thesis by simp
  qed
qed

theorem NextID_outcome_witness:
  "msAt (clockOf [3]) 0 <s lastTimestamp (usedUp 5) \<and>
   NextID (clockOf [3]) (usedUp 5) 0
     = Some (Panic ''Clock moved backwards, Refusing to generate id'', usedUp 5, Suc 0) \<and>
   \<not> msAt (clockOf [5, 5, 8]) 0 <s lastTimestamp (usedUp 5) \<and>
   exhausted (clockOf [5, 5, 8]) (usedUp 5) 0 \<and>
   lastTimestamp (usedUp 5) <s msAt (clockOf [5, 5, 8]) (Suc 0 + Suc 0) \<and>
   (\<exists>r s' n'. NextID (clockOf [5, 5, 8]) (usedUp 5) 0 = Some (Return r, s', n'))"
proof -
  have a: "msAt (clockOf [3]) 0 <s lastTimestamp (usedUp 5)" by code_simp
  have b: "\<not> msAt (clockOf [5, 5, 8]) 0 <s lastTimestamp (usedUp 5)" by code_simp
  have c: "exhausted (clockOf [5, 5, 8]) (usedUp 5) 0" by code_simp
  have d: "lastTimestamp (usedUp 5) <s msAt (clockOf [5, 5, 8]) (Suc 0 + Suc 0)" by code_simp
  from d have d': "\<exists>k. lastTimestamp (usedUp 5) <s msAt (clockOf [5, 5, 8]) (Suc 0 + k)" ..
  have "NextID (clockOf [3]) (usedUp 5) 0
     = Some (Panic ''Clock moved backwards, Refusing to generate id'', usedUp 5, Suc 0)"
    using NextID_outcome [of "clockOf [3]" "usedUp 5" 0, THEN conjunct1] a by (rule iffD2)
  moreover have "\<exists>r s' n'. NextID (clockOf [5, 5, 8]) (usedUp 5) 0 = Some (Return r, s', n')"
    using NextID_outcome [of "clockOf [5, 5, 8]" "usedUp 5" 0, THEN conjunct2, THEN conjunct2, THEN conjunct1]
  proof (rule iffD2)
    show "\<not> msAt (clockOf [5, 5, 8]) 0 <s lastTimestamp (usedUp 5) \<and>
      (exhausted (clockOf [5, 5, 8]) (usedUp 5) 0 \<longrightarrow>
        (\<exists>k. lastTimestamp (usedUp 5) <s msAt (clockOf [5, 5, 8]) (Suc 0 + k)))"
      using b d' by (intro conjI impI)
  qed
  ultimately show ?thesis using a b c d by (intro conjI)
qed

text \<open>
  Claim C3 as it is written fails in its last part. The generator has given the 4096
  identifiers of millisecond 5 (\<open>usedUp_reached\<close>) and the clock stays at millisecond 5:
  the reading is not less than \<open>lastTimestamp\<close>, so the call does not panic, but it never
  leaves the loop of line 86 and returns no value.
\<close>

theorem NextID_outcome_counterexample:
  "nondecreasing (clockOf [5]) \<and>
   \<not> msAt (clockOf [5]) 0 <s lastTimestamp (usedUp 5) \<and>
   NextID (clockOf [5]) (usedUp 5) 0 = None"
proof -
  have e: "exhausted (clockOf [5]) (usedUp 5) 0" by code_simp
  have a: "msAt (clockOf [5]) i \<le>s lastTimestamp (usedUp 5)" for i
    by (rule msAt_clockOf) (auto, code_simp)
  have "busyWait (clockOf [5]) (lastTimestamp (usedUp 5)) (lastTimestamp (usedUp 5)) (Suc 0) = None"
    using a by (intro busyWait_never) simp_all
  then have "NextID (clockOf [5]) (usedUp 5) 0 = None"
    by (simp add: NextID_wrap [OF e])
  moreover have "\<not> msAt (clockOf [5]) 0 <s lastTimestamp (usedUp 5)" by code_simp
  ultimately show ?thesis using nondecreasing_single by blast
qed

text \<open>
  Claim C4. Explicit construction has no failing path: \<^verbatim>\<open>NewWith\<close> is a total
  function with no error result, its two index expressions being guarded by the length
  tests. With one identity value both the data-center id and the worker id are that
  value masked with \<^verbatim>\<open>0x1F\<close>; with two values (or more, the rest being ignored) the
  first, masked, is the data-center id and the second, masked, the worker id; and the
  value 37 gives the identity 5.
\<close>

theorem NewWith_identity:
  "NewWith t [v] env =
     \<lparr>sequence = 0, dataCenterID = v AND 31, workerID = v AND 31, lastTimestamp = 0,
      startTime = UTC t\<rparr> \<and>
   NewWith t (a # b # rest) env =
     \<lparr>sequence = 0, dataCenterID = a AND 31, workerID = b AND 31, lastTimestamp = 0,
      startTime = UTC t\<rparr> \<and>
   dataCenterID (NewWith t [37] env) = 5 \<and> workerID (NewWith t [37] env) = 5"
  by (simp add: NewWith_def dataCenterMask_def workerMask_def)

theorem NewWith_identity_witness:
  "NewWith (atMs 0) [37] noAddrs =
     \<lparr>sequence = 0, dataCenterID = 5, workerID = 5, lastTimestamp = 0, startTime = atMs 0\<rparr> \<and>
   NewWith (atMs 0) [37, 64, 9] noAddrs =
     \<lparr>sequence = 0, dataCenterID = 5, workerID = 0, lastTimestamp = 0, startTime = atMs 0\<rparr>"
  using NewWith_identity [of "atMs 0" 37 noAddrs 37 64 "[9]"]
  by (simp add: UTC_def atMs_def)

text \<open>
  Claim C5 does not hold of the code. \<^verbatim>\<open>New\<close> takes the year, month and day of
  \<^verbatim>\<open>time.Now()\<close> as it stands, in the host's local zone, and builds midnight UTC of
  that local date; \<^verbatim>\<open>NextID\<close> and \<^verbatim>\<open>genMillisecond\<close> convert the time to UTC first. On a
  host eight hours east of UTC, at 19:00 UTC on 2024-01-01, the local date is 2024-01-02
  and the epoch is 2024-01-02T00:00:00Z, five hours in the future, where the claim has
  2024-01-01T00:00:00Z; the first identifier is then negative. With the same instant
  read in UTC the epoch is the start of the UTC day.
\<close>

theorem New_epoch_of_local_date:
  "Year nightEast = 2024 \<and> Month nightEast = 1 \<and> Day nightEast = 2 \<and>
   startTime (New nightEast noAddrs) = \<lparr>nsec = 1704153600000000000, zone = 0\<rparr> \<and>
   utcMidnight nightEast = \<lparr>nsec = 1704067200000000000, zone = 0\<rparr> \<and>
   startTime (New (UTC nightEast) noAddrs) = utcMidnight nightEast \<and>
   NextIDs (clockOf [1704135600000]) 1 (New nightEast noAddrs) 0 = [- 75497472000000] \<and>
   (- 75497472000000 :: int64) <s 0"
proof -
  have "Year nightEast = 2024" "Month nightEast = 1" "Day nightEast = 2"
    by code_simp+
  moreover have "startTime (New nightEast noAddrs) = \<lparr>nsec = 1704153600000000000, zone = 0\<rparr>"
    by code_simp
  moreover have "utcMidnight nightEast = \<lparr>nsec = 1704067200000000000, zone = 0\<rparr>"
    by code_simp
  moreover have "startTime (New (UTC nightEast) noAddrs) = utcMidnight nightEast"
    by code_simp
  moreover have "NextIDs (clockOf [1704135600000]) 1 (New nightEast noAddrs) 0 = [- 75497472000000]"
    by code_simp
  moreover have "(- 75497472000000 :: int64) <s 0"
    by (simp add: word_sless_alt)
  ultimately show ?thesis by (intro conjI)
qed

text \<open>
  Claim C6. \<^verbatim>\<open>machineID\<close> computes node identity resolution as the specification
  words it: \<open>(0, 0)\<close> when the lookup fails, otherwise the third and fourth octets of the
  first address that is an IP network address, is not loopback and has an IPv4 form
  (an IPv4-mapped IPv6 address has one), and \<open>(0, 0)\<close> when there is none. The result is
  a plain pair: no error is passed on.
\<close>

theorem machineID_resolves:
  "machineID InterfaceAddrs = resolveIdentity InterfaceAddrs"
proof (cases InterfaceAddrs)
  case (Inl err)
  then show ?thesis by (simp add: machineID_def resolveIdentity_def)
next
  case (Inr as)
  have "scanAddrs as =
     (case find usableIPv4 as of
        None \<Rightarrow> (0, 0)
      | Some a \<Rightarrow> (case To4 (IP a) of Some ip4 \<Rightarrow> (ip4 ! 2, ip4 ! 3) | None \<Rightarrow> (0, 0)))"
  proof (induction as)
    case Nil
    show ?case by simp
  next
    case (Cons a as)
    have "scanAddrs (a # as) =
      (if usableIPv4 a
       then (case To4 (IP a) of Some ip4 \<Rightarrow> (ip4 ! 2, ip4 ! 3) | None \<Rightarrow> (0, 0))
       else scanAddrs as)"
      by (cases a) (auto simp: usableIPv4_def split: option.splits)
    with Cons.IH show ?case by simp
  qed
  with Inr show ?thesis by (simp add: machineID_def resolveIdentity_def)
qed

theorem machineID_resolves_witness:
  "machineID (Inr [IPNet [127, 0, 0, 1] [255, 0, 0, 0], OtherAddr ''fe80::1%eth0'',
                   IPNet IPv6loopback [], IPNet [192, 168, 7, 200] [255, 255, 255, 0],
                   IPNet [10, 0, 0, 1] [255, 0, 0, 0]]) = (7, 200) \<and>
   machineID (Inr [IPNet [127, 0, 0, 1] [255, 0, 0, 0], IPNet IPv6loopback []]) = (0, 0) \<and>
   machineID noAddrs = (0, 0)"
proof -
  have "resolveIdentity (Inr [IPNet [127, 0, 0, 1] [255, 0, 0, 0], OtherAddr ''fe80::1%eth0'',
                   IPNet IPv6loopback [], IPNet [192, 168, 7, 200] [255, 255, 255, 0],
                   IPNet [10, 0, 0, 1] [255, 0, 0, 0]]) = (7, 200)"
    by code_simp
  moreover have "resolveIdentity (Inr [IPNet [127, 0, 0, 1] [255, 0, 0, 0], IPNet IPv6loopback []])
     = (0, 0)"
    by code_simp
  moreover have "resolveIdentity noAddrs = (0, 0)"
    by code_simp
  ultimately show ?thesis by (simp only: machineID_resolves)
qed

text \<open>
  Claim C7, as amended. Let a call find the clock in the millisecond of \<open>lastTimestamp\<close>
  with the sequence budget used up (for a generator within its bit widths: the sequence
  is 4095, where the 4096 calls of a millisecond leave it by \<open>first_calls\<close>, so this is
  the 4097th request of the millisecond), and let some later clock
  reading exceed \<open>lastTimestamp\<close>. Then the call returns: it reads the clock again and
  again, passing over every reading that is not greater than \<open>lastTimestamp\<close>, and
  adopts the first one that is; that reading becomes \<open>lastTimestamp\<close>, the sequence is 0
  and so are the low 12 bits of the identifier. The timestamp field of the identifier is
  strictly greater than that of the identifiers of the millisecond before, provided the
  elapsed milliseconds of both timestamps fit the field.
\<close>

theorem NextID_rollover:
  assumes "valid s" "exhausted clk s n" "\<exists>k. lastTimestamp s <s msAt clk (Suc n + k)"
  shows "sequence s = 4095 \<and>
         (\<exists>k r s'. NextID clk s n = Some (Return r, s', Suc (Suc n + k)) \<and>
            (\<forall>i<k. msAt clk (Suc n + i) \<le>s lastTimestamp s) \<and>
            lastTimestamp s' = msAt clk (Suc n + k) \<and>
            lastTimestamp s <s lastTimestamp s' \<and>
            sequence s' = 0 \<and> r AND 4095 = 0 \<and>
            (fits s (lastTimestamp s) \<and> fits s (lastTimestamp s') \<longrightarrow>
               signed_drop_bit 22 (lastID s) <s signed_drop_bit 22 r))"
proof
  have q: "sequence s \<le> 4095" using assms(1) by (rule valid_seq)
  have d: "dataCenterID s \<le> 31" and w: "workerID s \<le> 31"
    using assms(1) by (simp_all add: valid_def)
  show "sequence s = 4095"
    using assms(2) seq_wrap [OF q] by (simp add: exhausted_def)
  from assms(3) obtain k where k: "lastTimestamp s <s msAt clk (Suc n + k)"
    "\<forall>i<k. \<not> lastTimestamp s <s msAt clk (Suc n + i)"
    using exists_least_iff [of "\<lambda>k. lastTimestamp s <s msAt clk (Suc n + k)"] by blast
  let ?ms = "msAt clk (Suc n + k)"
  let ?r = "makeID s ?ms 0"
  let ?s' = "s\<lparr>sequence := 0, lastTimestamp := ?ms\<rparr>"
  have pass: "\<forall>i<k. msAt clk (Suc n + i) \<le>s lastTimestamp s"
    using k(2) by (simp add: signed.not_less)
  have "busyWait clk (lastTimestamp s) (lastTimestamp s) (Suc n) = Some (?ms, Suc (Suc n + k))"
    using pass k(1) by (intro busyWait_finds) simp_all
  then have call: "NextID clk s n = Some (Return ?r, ?s', Suc (Suc n + k))"
    by (simp add: NextID_wrap [OF assms(2)])
  have r: "?r = push_bit 22 (?ms - startMs s) OR lowFields (dataCenterID s) (workerID s) 0"
    by (rule makeID_eq)
  have low: "?r AND 4095 = 0"
    unfolding r using d w by (simp add: field_seq)
  have ts: "signed_drop_bit 22 (lastID s) <s signed_drop_bit 22 ?r"
    if f: "fits s (lastTimestamp s)" "fits s ?ms"
  proof -
    have old: "lastTimestamp s = msAt clk n" using assms(2) by (simp add: exhausted_def)
    have a: "signed_drop_bit 22 (lastID s) = lastTimestamp s - startMs s"
      unfolding lastID_def makeID_eq using d w q f(1) by (intro field_ts) (simp_all add: fits_def)
    have b: "signed_drop_bit 22 ?r = ?ms - startMs s"
      unfolding r using d w f(2) by (intro field_ts) (simp_all add: fits_def)
    have "sint (lastTimestamp s - startMs s) < sint (?ms - startMs s)"
      unfolding old sint_elapsed using k(1) by (simp add: old word_sless_alt)
    then show ?thesis unfolding a b by (simp add: word_sless_alt)
  qed
  show "\<exists>k r s'. NextID clk s n = Some (Return r, s', Suc (Suc n + k)) \<and>
            (\<forall>i<k. msAt clk (Suc n + i) \<le>s lastTimestamp s) \<and>
            lastTimestamp s' = msAt clk (Suc n + k) \<and>
            lastTimestamp s <s lastTimestamp s' \<and>
            sequence s' = 0 \<and> r AND 4095 = 0 \<and>
            (fits s (lastTimestamp s) \<and> fits s (lastTimestamp s') \<longrightarrow>
               signed_drop_bit 22 (lastID s) <s signed_drop_bit 22 r)"
  proof (intro exI conjI impI)
    show "NextID clk s n = Some (Return ?r, ?s', Suc (Suc n + k))" by (rule call)
    show "\<forall>i<k. msAt clk (Suc n + i) \<le>s lastTimestamp s" by (rule pass)
    show "lastTimestamp ?s' = ?ms" by simp
    show "lastTimestamp s <s lastTimestamp ?s'" using k(1) by simp
    show "sequence ?s' = 0" by simp
    show "?r AND 4095 = 0" by (rule low)
    show "signed_drop_bit 22 (lastID s) <s signed_drop_bit 22 ?r"
      if "fits s (lastTimestamp s) \<and> fits s (lastTimestamp ?s')"
      using that ts by simp
  qed
qed

theorem NextID_rollover_witness:
  "valid (usedUp 5) \<and> exhausted (clockOf [5, 5, 4, 5, 8]) (usedUp 5) 0 \<and>
   lastTimestamp (usedUp 5) <s msAt (clockOf [5, 5, 4, 5, 8]) (Suc 0 + 3) \<and>
   NextID (clockOf [5, 5, 4, 5, 8]) (usedUp 5) 0
     = Some (Return 33693696, usedUp 5\<lparr>sequence := 0, lastTimestamp := 8\<rparr>, 5) \<and>
   lastID (usedUp 5) = 21114879 \<and>
   sequence (usedUp 5) = 4095"
proof -
  have v: "valid (usedUp 5)" by code_simp
  have e: "exhausted (clockOf [5, 5, 4, 5, 8]) (usedUp 5) 0" by code_simp
  have a: "lastTimestamp (usedUp 5) <s msAt (clockOf [5, 5, 4, 5, 8]) (Suc 0 + 3)" by code_simp
  then have a': "\<exists>k. lastTimestamp (usedUp 5) <s msAt (clockOf [5, 5, 4, 5, 8]) (Suc 0 + k)" ..
  have c: "NextID (clockOf [5, 5, 4, 5, 8]) (usedUp 5) 0
     = Some (Return 33693696, usedUp 5\<lparr>sequence := 0, lastTimestamp := 8\<rparr>, 5)" by code_simp
  have l: "lastID (usedUp 5) = 21114879" by code_simp
  from NextID_rollover [OF v e a'] have "sequence (usedUp 5) = 4095" by (rule conjunct1)
  with v e a c l show ?thesis by (intro conjI)
qed

text \<open>
  Claim C7 as it is written fails for the timestamp field at the end of its range. The
  generator has given the 4096 identifiers of millisecond \<open>2 ^ 41 - 1\<close> after its epoch,
  1970-01-01 (\<open>usedUp_reached\<close>), and the clock then reads millisecond \<open>2 ^ 41\<close>: the
  4097th identifier has the timestamp field \<open>- 2 ^ 41\<close>, which is less than the
  \<open>2 ^ 41 - 1\<close> of the 4096 before.
\<close>

theorem NextID_rollover_counterexample:
  "valid (usedUp 2199023255551) \<and>
   exhausted (clockOf [2199023255551, 2199023255552]) (usedUp 2199023255551) 0 \<and>
   NextID (clockOf [2199023255551, 2199023255552]) (usedUp 2199023255551) 0
     = Some (Return (- 9223372036854636544),
             usedUp 2199023255551\<lparr>sequence := 0, lastTimestamp := 2199023255552\<rparr>, 2) \<and>
   signed_drop_bit 22 (- 9223372036854636544 :: int64) = - 2199023255552 \<and>
   signed_drop_bit 22 (lastID (usedUp 2199023255551)) = 2199023255551 \<and>
   (- 2199023255552 :: int64) <s 2199023255551"
proof -
  have "valid (usedUp 2199023255551)" by code_simp
  moreover have "exhausted (clockOf [2199023255551, 2199023255552]) (usedUp 2199023255551) 0"
    by code_simp
  moreover have "NextID (clockOf [2199023255551, 2199023255552]) (usedUp 2199023255551) 0
     = Some (Return (- 9223372036854636544),
             usedUp 2199023255551\<lparr>sequence := 0, lastTimestamp := 2199023255552\<rparr>, 2)"
    by code_simp
  moreover have "signed_drop_bit 22 (- 9223372036854636544 :: int64) = - 2199023255552"
    by code_simp
  moreover have "signed_drop_bit 22 (lastID (usedUp 2199023255551)) = 2199023255551"
    by code_simp
  moreover have "(- 2199023255552 :: int64) <s 2199023255551"
    by simp
  ultimately show ?thesis by (intro conjI)
qed

text \<open>
  Claim C8 does not hold of the code. The comparison of line 75 reads \<open>lastTimestamp\<close>
  before \<^verbatim>\<open>s.mutex.Lock()\<close> of line 79, so it is not part of the critical section. Three
  goroutines call \<^verbatim>\<open>NextID\<close> on a new generator; the clock reads milliseconds 5, 6
  and 6. Call 0 reads the clock and makes its comparison against \<open>lastTimestamp = 0\<close>;
  call 1 then runs from start to end. When call 1 is inside the locked section, call 0
  has made its comparison already and holds no lock; when call 1 has stored
  \<open>lastTimestamp = 6\<close>, call 0 still goes on with millisecond 5, which a call made
  after call 1 would have refused with the panic. Call 0 then stores
  \<open>lastTimestamp = 5\<close> and returns a smaller identifier than call 1 did, and call 2,
  reading millisecond 6, returns the identifier call 1 returned.
\<close>

theorem compare_outside_lock:
  "nondecreasing (clockOf [5, 6, 6]) \<and>
   run (clockOf [5, 6, 6]) [0, 0, 1, 1, 1] threeCalls
     = Some \<lparr>shared = gen1970, mutex = Some 1, readings = 2,
             calls = [AtLock 5, AtSequence 6, AtNow]\<rparr> \<and>
   run (clockOf [5, 6, 6]) [0, 0, 1, 1, 1, 1, 1, 1, 1] threeCalls
     = Some \<lparr>shared = gen1970\<lparr>lastTimestamp := 6\<rparr>, mutex = None, readings = 2,
             calls = [AtLock 5, Finished (Return 25305088), AtNow]\<rparr> \<and>
   NextID (clockOf [5]) (gen1970\<lparr>lastTimestamp := 6\<rparr>) 0
     = Some (Panic ''Clock moved backwards, Refusing to generate id'',
             gen1970\<lparr>lastTimestamp := 6\<rparr>, 1) \<and>
   run (clockOf [5, 6, 6]) [0, 0, 1, 1, 1, 1, 1, 1, 1, 0, 0, 0, 0, 0] threeCalls
     = Some \<lparr>shared = gen1970\<lparr>lastTimestamp := 5\<rparr>, mutex = None, readings = 2,
             calls = [Finished (Return 21110784), Finished (Return 25305088), AtNow]\<rparr> \<and>
   run (clockOf [5, 6, 6]) [0, 0, 1, 1, 1, 1, 1, 1, 1, 0, 0, 0, 0, 0, 2, 2, 2, 2, 2, 2, 2] threeCalls
     = Some \<lparr>shared = gen1970\<lparr>lastTimestamp := 6\<rparr>, mutex = None, readings = 3,
             calls = [Finished (Return 21110784), Finished (Return 25305088),
                      Finished (Return 25305088)]\<rparr>"
proof -
  have "nondecreasing (clockOf [5, 6, 6])"
    by (intro nondecreasing_Cons nondecreasing_single) (simp_all add: atMs_def UnixNano_def)
  moreover have "run (clockOf [5, 6, 6]) [0, 0, 1, 1, 1] threeCalls
     = Some \<lparr>shared = gen1970, mutex = Some 1, readings = 2,
             calls = [AtLock 5, AtSequence 6, AtNow]\<rparr>"
    by code_simp
  moreover have "run (clockOf [5, 6, 6]) [0, 0, 1, 1, 1, 1, 1, 1, 1] threeCalls
     = Some \<lparr>shared = gen1970\<lparr>lastTimestamp := 6\<rparr>, mutex = None, readings = 2,
             calls = [AtLock 5, Finished (Return 25305088), AtNow]\<rparr>"
    by code_simp
  moreover have "NextID (clockOf [5]) (gen1970\<lparr>lastTimestamp := 6\<rparr>) 0
     = Some (Panic ''Clock moved backwards, Refusing to generate id'',
             gen1970\<lparr>lastTimestamp := 6\<rparr>, 1)"
    by code_simp
  moreover have "run (clockOf [5, 6, 6]) [0, 0, 1, 1, 1, 1, 1, 1, 1, 0, 0, 0, 0, 0] threeCalls
     = Some \<lparr>shared = gen1970\<lparr>lastTimestamp := 5\<rparr>, mutex = None, readings = 2,
             calls = [Finished (Return 21110784), Finished (Return 25305088), AtNow]\<rparr>"
    by code_simp
  moreover have "run (clockOf [5, 6, 6]) [0, 0, 1, 1, 1, 1, 1, 1, 1, 0, 0, 0, 0, 0, 2, 2, 2, 2, 2, 2, 2]
        threeCalls
     = Some \<lparr>shared = gen1970\<lparr>lastTimestamp := 6\<rparr>, mutex = None, readings = 3,
             calls = [Finished (Return 21110784), Finished (Return 25305088),
                      Finished (Return 25305088)]\<rparr>"
    by code_simp
  ultimately show ?thesis by (intro conjI)
qed

text \<open>
  Claim C9. Whenever the elapsed milliseconds of the timestamp a call stores are
  non-negative and below \<open>2 ^ 41\<close>, the identifier it returns is non-negative as a signed
  64-bit integer: the four fields lie below bit 63. This holds for any generator.
\<close>

theorem NextID_nonnegative:
  assumes "NextID clk s n = Some (Return r, s', n')"
    and "0 \<le> sint (lastTimestamp s' - startMs s)"
    and "sint (lastTimestamp s' - startMs s) < 2 ^ 41"
  shows "0 \<le>s r"
proof -
  note ret = NextID_Return [OF assms(1)]
  let ?e = "lastTimestamp s' - startMs s"
  have r: "r = push_bit 22 ?e OR lowFields (dataCenterID s) (workerID s) (sequence s')"
    unfolding ret(1) by (rule makeID_eq)
  have "\<not> bit (sint ?e) 41"
    using assms(2,3) by (simp add: bit_iff_odd)
  then have e: "\<not> bit ?e 41"
    by (simp add: bit_sint_iff)
  have l: "\<not> bit (lowFields (dataCenterID s) (workerID s) (sequence s')) 63"
    by (auto simp: lowFields_ucast [OF ret(2)] bit_simps
          dest: bit_le4095 [OF ret(2)] bit_imp_le_length)
  have "\<not> bit r 63"
    unfolding r using e l by (simp add: bit_simps)
  then have "\<not> sint r < 0"
    using bit_last_iff [of r] by simp
  then show ?thesis by (simp add: word_sle_eq)
qed

theorem NextID_nonnegative_witness:
  "NextID (clockOf [5]) gen1970 0 = Some (Return 21110784, gen1970\<lparr>lastTimestamp := 5\<rparr>, 1) \<and>
   0 \<le> sint (lastTimestamp (gen1970\<lparr>lastTimestamp := 5\<rparr>) - startMs gen1970) \<and>
   sint (lastTimestamp (gen1970\<lparr>lastTimestamp := 5\<rparr>) - startMs gen1970) < 2 ^ 41 \<and>
   (0 :: int64) \<le>s 21110784"
proof -
  have e: "NextID (clockOf [5]) gen1970 0 = Some (Return 21110784, gen1970\<lparr>lastTimestamp := 5\<rparr>, 1)"
    by code_simp
  have a: "0 \<le> sint (lastTimestamp (gen1970\<lparr>lastTimestamp := 5\<rparr>) - startMs gen1970)"
    by code_simp
  have b: "sint (lastTimestamp (gen1970\<lparr>lastTimestamp := 5\<rparr>) - startMs gen1970) < 2 ^ 41"
    by code_simp
  from NextID_nonnegative [OF e a b] e a b show ?thesis by (intro conjI)
qed

text \<open>
  Claim C10. The data-center id and the worker id of a generator are at most 31 and its
  sequence is from 0 to 4095 after either construction, whatever identity values are
  supplied or derived from the octets of an address, and every call of \<^verbatim>\<open>NextID\<close>,
  whether it returns or panics, keeps it so; a call that returns leaves the sequence in
  range whatever it was, and no call changes the two ids.
\<close>

theorem valid_always:
  "valid (NewWith t ids env) \<and> valid (New now env) \<and>
   (NextID clk s n = Some (out, s', n') \<longrightarrow>
      dataCenterID s' = dataCenterID s \<and> workerID s' = workerID s \<and>
      (valid s \<longrightarrow> valid s') \<and>
      (\<forall>r. out = Return r \<longrightarrow> 0 \<le>s sequence s' \<and> sequence s' \<le>s 4095))"
proof (intro conjI impI allI)
  show "valid (NewWith t ids env)" by (rule valid_NewWith)
  show "valid (New now env)"
    by (simp add: New_def Let_def valid_NewWith split: prod.split)
next
  assume call: "NextID clk s n = Some (out, s', n')"
  show "dataCenterID s' = dataCenterID s"
    using call NextID_Return(3) [of clk s n _ s' n'] NextID_Panic(1) [of clk s n _ s' n']
    by (cases out) auto
  show "workerID s' = workerID s"
    using call NextID_Return(4) [of clk s n _ s' n'] NextID_Panic(1) [of clk s n _ s' n']
    by (cases out) auto
  show "valid s'" if "valid s"
    using call that NextID_valid [of s clk n _ s' n'] NextID_Panic(1) [of clk s n _ s' n']
    by (cases out) auto
  show "0 \<le>s sequence s'" "sequence s' \<le>s 4095" if "out = Return r" for r
    using call that NextID_Return(2) [of clk s n r s' n'] seq_signed [of "sequence s'"]
    by auto
qed

theorem valid_always_witness:
  "valid gen1970 \<and>
   NextID (clockOf [5]) gen1970 0 = Some (Return 21110784, gen1970\<lparr>lastTimestamp := 5\<rparr>, 1) \<and>
   valid (gen1970\<lparr>lastTimestamp := 5\<rparr>) \<and>
   valid (NewWith (atMs 0) [] (Inr [IPNet [192, 168, 7, 200] [255, 255, 255, 0]])) \<and>
   NewWith (atMs 0) [] (Inr [IPNet [192, 168, 7, 200] [255, 255, 255, 0]])
     = \<lparr>sequence = 0, dataCenterID = 7, workerID = 8, lastTimestamp = 0, startTime = atMs 0\<rparr>"
proof -
  have e: "NextID (clockOf [5]) gen1970 0 = Some (Return 21110784, gen1970\<lparr>lastTimestamp := 5\<rparr>, 1)"
    by code_simp
  have n: "NewWith (atMs 0) [] (Inr [IPNet [192, 168, 7, 200] [255, 255, 255, 0]])
     = \<lparr>sequence = 0, dataCenterID = 7, workerID = 8, lastTimestamp = 0, startTime = atMs 0\<rparr>"
    by code_simp
  note v = valid_always [where t = "atMs 0" and ids = "[]"
      and env = "Inr [IPNet [192, 168, 7, 200] [255, 255, 255, 0]]"
      and clk = "clockOf [5]" and s = gen1970 and n = 0 and out = "Return 21110784"
      and s' = "gen1970\<lparr>lastTimestamp := 5\<rparr>" and n' = 1]
  from v have "valid (NewWith (atMs 0) [] (Inr [IPNet [192, 168, 7, 200] [255, 255, 255, 0]]))"
    by (rule conjunct1)
  moreover from v e valid_gen1970 have "valid (gen1970\<lparr>lastTimestamp := 5\<rparr>)"
    by blast
  ultimately show ?thesis using valid_gen1970 e n by (intro conjI)
qed

end
